theory Spec2Isabelle
  imports Main
begin

section \<open>Python lists and exceptions\<close>

text \<open>
  The engine of \<^verbatim>\<open>src/sudoku.py\<close> keeps its grid in \<^verbatim>\<open>self._board\<close>, a list of
  nine lists of nine integers. Reading or writing \<^verbatim>\<open>xs[i]\<close> raises IndexError out of
  range and counts a negative index from the end; a missing dictionary key raises
  KeyError. An exception is the value \<open>Inl e\<close> of a result.
\<close>

datatype error = IndexError | KeyError

type_synonym board = "int list list"

definition py_index :: "'a list \<Rightarrow> int \<Rightarrow> error + 'a" where
  "py_index xs i =
     (if 0 \<le> i \<and> i < int (length xs) then Inr (xs ! nat i)
      else if - int (length xs) \<le> i \<and> i < 0 then Inr (xs ! nat (i + int (length xs)))
      else Inl IndexError)"

definition py_store :: "'a list \<Rightarrow> int \<Rightarrow> 'a \<Rightarrow> error + 'a list" where
  "py_store xs i v =
     (if 0 \<le> i \<and> i < int (length xs) then Inr (xs[nat i := v])
      else if - int (length xs) \<le> i \<and> i < 0 then Inr (xs[nat (i + int (length xs)) := v])
      else Inl IndexError)"

text \<open>\<^verbatim>\<open>self._board[i][j]\<close> and \<^verbatim>\<open>self._board[i][j] = v\<close>: the row is looked up first,
  then the cell in it. The rows are nine separate list objects, so the assignment changes
  one row only.\<close>

definition board_get :: "board \<Rightarrow> int \<Rightarrow> int \<Rightarrow> error + int" where
  "board_get b i j = (case py_index b i of Inl e \<Rightarrow> Inl e | Inr r \<Rightarrow> py_index r j)"

definition board_set :: "board \<Rightarrow> int \<Rightarrow> int \<Rightarrow> int \<Rightarrow> error + board" where
  "board_set b i j v =
     (case py_index b i of
        Inl e \<Rightarrow> Inl e
      | Inr r \<Rightarrow> (case py_store r j v of Inl e \<Rightarrow> Inl e | Inr r' \<Rightarrow> py_store b i r'))"

section \<open>The random source\<close>

text \<open>
  The module-level generator of \<^verbatim>\<open>random\<close> is a sequence of raw draws \<open>src 0, src 1, \<dots>\<close>
  and a cursor \<open>k\<close> that each call advances by one. \<^verbatim>\<open>random.choice(seq)\<close> returns
  \<^verbatim>\<open>seq[n]\<close> for a drawn \<open>n\<close> below the length (IndexError on an empty sequence), and
  \<^verbatim>\<open>random.randint(a, b)\<close> a drawn integer of \<open>[a, b]\<close>; reducing the raw draw modulo
  the number of outcomes reaches every outcome.
\<close>

type_synonym source = "nat \<Rightarrow> nat"

definition choice :: "source \<Rightarrow> nat \<Rightarrow> 'a list \<Rightarrow> error + ('a \<times> nat)" where
  "choice src k xs =
     (if xs = [] then Inl IndexError else Inr (xs ! (src k mod length xs), Suc k))"

definition randint :: "source \<Rightarrow> nat \<Rightarrow> int \<Rightarrow> int \<Rightarrow> int \<times> nat" where
  "randint src k a b = (a + int (src k mod nat (b - a + 1)), Suc k)"

section \<open>The Sudoku class\<close>

text \<open>\<^verbatim>\<open>__init__\<close> and \<^verbatim>\<open>clear_board\<close> build the same all-zero grid; the table
  \<^verbatim>\<open>_difficulty\<close> is set once and never changed.\<close>

definition empty_board :: board where
  "empty_board = replicate 9 (replicate 9 0)"

definition difficulty :: "(int \<times> nat) list" where
  "difficulty = [(0, 35), (1, 43), (2, 55), (3, 60)]"


definition get_value :: "board \<Rightarrow> int \<Rightarrow> int \<Rightarrow> error + int" where
  "get_value b row col = board_get b row col"

definition insert_value :: "board \<Rightarrow> int \<Rightarrow> int \<Rightarrow> int \<Rightarrow> error + board" where
  "insert_value b row col v = board_set b row col v"

subsection \<open>\<^verbatim>\<open>_generate_diagonals\<close>\<close>

text \<open>
  The inner loop \<^verbatim>\<open>for y in range(start, start + 3)\<close> is \<open>fill_row\<close>, the outer loop
  \<^verbatim>\<open>for x in range(9)\<close> is \<open>fill_rows\<close>; the state is the set \<^verbatim>\<open>nums\<close>, the grid and
  the cursor of the random source. \<^verbatim>\<open>tuple(nums)\<close> lists a set of small integers in
  ascending order. \<^verbatim>\<open>nums.remove(num)\<close> raises KeyError for an absent element.
\<close>

fun fill_row ::
  "source \<Rightarrow> int \<Rightarrow> int list \<Rightarrow> int set \<times> board \<times> nat
     \<Rightarrow> (error + unit) \<times> int set \<times> board \<times> nat" where
  "fill_row src x [] st = (Inr (), st)"
| "fill_row src x (y # ys) (nums, b, k) =
     (case choice src k (sorted_list_of_set nums) of
        Inl e \<Rightarrow> (Inl e, nums, b, k)
      | Inr (num, k') \<Rightarrow>
          (case board_set b x y num of
             Inl e \<Rightarrow> (Inl e, nums, b, k')
           | Inr b' \<Rightarrow>
               if num \<in> nums then fill_row src x ys (nums - {num}, b', k')
               else (Inl KeyError, nums, b', k')))"

fun fill_rows ::
  "source \<Rightarrow> int list \<Rightarrow> int set \<times> board \<times> nat
     \<Rightarrow> (error + unit) \<times> int set \<times> board \<times> nat" where
  "fill_rows src [] st = (Inr (), st)"
| "fill_rows src (x # xs) (nums, b, k) =
     (let nums1 = (if nums = {} then {1..9} else nums);
          start = x - x mod 3
      in case fill_row src x [start..start + 2] (nums1, b, k) of
           (Inl e, st) \<Rightarrow> (Inl e, st)
         | (Inr u, st) \<Rightarrow> fill_rows src xs st)"

definition generate_diagonals :: "source \<Rightarrow> board \<times> nat \<Rightarrow> (error + unit) \<times> board \<times> nat" where
  "generate_diagonals src st =
     (case fill_rows src [0..8] ({}, fst st, snd st) of (r, nums, b, k) \<Rightarrow> (r, b, k))"

subsection \<open>\<^verbatim>\<open>_is_num_valid\<close>\<close>

text \<open>
  Three scans in the source's order: \<^verbatim>\<open>num in self._board[row]\<close>, then the column
  through every row, then the nine cells of the box. Each scan answers whether it found
  \<open>num\<close>; the function returns False at the first find and True after the last scan.
\<close>

fun col_scan :: "board \<Rightarrow> int \<Rightarrow> int \<Rightarrow> error + bool" where
  "col_scan [] col num = Inr False"
| "col_scan (x # xs) col num =
     (case py_index x col of
        Inl e \<Rightarrow> Inl e
      | Inr v \<Rightarrow> if v = num then Inr True else col_scan xs col num)"

fun box_scan :: "board \<Rightarrow> (int \<times> int) list \<Rightarrow> int \<Rightarrow> error + bool" where
  "box_scan b [] num = Inr False"
| "box_scan b ((i, j) # ps) num =
     (case board_get b i j of
        Inl e \<Rightarrow> Inl e
      | Inr v \<Rightarrow> if v = num then Inr True else box_scan b ps num)"

definition is_num_valid :: "board \<Rightarrow> int \<Rightarrow> int \<Rightarrow> int \<Rightarrow> error + bool" where
  "is_num_valid b row col num =
     (case py_index b row of
        Inl e \<Rightarrow> Inl e
      | Inr r \<Rightarrow>
          if num \<in> set r then Inr False
          else (case col_scan b col num of
                  Inl e \<Rightarrow> Inl e
                | Inr True \<Rightarrow> Inr False
                | Inr False \<Rightarrow>
                    (let start_row = row - row mod 3; start_col = col - col mod 3
                     in case box_scan b (List.product [start_row..start_row + 2]
                                                      [start_col..start_col + 2]) num of
                          Inl e \<Rightarrow> Inl e
                        | Inr True \<Rightarrow> Inr False
                        | Inr False \<Rightarrow> Inr True)))"

subsection \<open>\<^verbatim>\<open>_generate_board\<close>\<close>

text \<open>
  The recursive filler returns its boolean together with the grid it leaves behind.
  \<open>try_nums\<close> is the loop \<^verbatim>\<open>for num in range(1, 10)\<close> over the candidates still to try;
  the assignment \<^verbatim>\<open>self._board[i][j] = 0\<close> closes every iteration that does not return.
\<close>

function generate_board :: "int \<Rightarrow> int \<Rightarrow> board \<Rightarrow> (error + bool) \<times> board"
  and try_nums :: "int \<Rightarrow> int \<Rightarrow> int list \<Rightarrow> board \<Rightarrow> (error + bool) \<times> board"
where
  "generate_board i j b =
     (if i = 8 \<and> j = 9 then (Inr True, b)
      else let i' = (if j = 9 then i + 1 else i); j' = (if j = 9 then 0 else j) in
        (case board_get b i' j' of
           Inl e \<Rightarrow> (Inl e, b)
         | Inr v \<Rightarrow> if v \<noteq> 0 then generate_board i' (j' + 1) b
                    else try_nums i' j' [1..9] b))"
| "try_nums i j [] b = (Inr False, b)"
| "try_nums i j (num # nums) b =
     (case is_num_valid b i j num of
        Inl e \<Rightarrow> (Inl e, b)
      | Inr False \<Rightarrow>
          (case board_set b i j 0 of
             Inl e \<Rightarrow> (Inl e, b)
           | Inr b3 \<Rightarrow> try_nums i j nums b3)
      | Inr True \<Rightarrow>
          (case board_set b i j num of
             Inl e \<Rightarrow> (Inl e, b)
           | Inr b1 \<Rightarrow>
               (case generate_board i (j + 1) b1 of
                  (Inl e, b2) \<Rightarrow> (Inl e, b2)
                | (Inr True, b2) \<Rightarrow> (Inr True, b2)
                | (Inr False, b2) \<Rightarrow>
                    (case board_set b2 i j 0 of
                       Inl e \<Rightarrow> (Inl e, b2)
                     | Inr b3 \<Rightarrow> try_nums i j nums b3))))"
  by pat_completeness auto

lemma board_set_shape: "board_set b i j v = Inr b' \<Longrightarrow> map length b' = map length b"
  by (auto simp: board_set_def py_index_def py_store_def map_update split: sum.splits if_splits
      intro!: nth_equalityI simp: nth_list_update)

lemma shape_dom:
  "generate_board_try_nums_dom (Inl (i, j, b)) \<Longrightarrow> map length (snd (generate_board i j b)) = map length b"
  "generate_board_try_nums_dom (Inr (i, j, ns, b)) \<Longrightarrow> map length (snd (try_nums i j ns b)) = map length b"
proof (induction i j b and i j ns b rule: generate_board_try_nums.pinduct)
  case (1 i j b)
  then show ?case
    by (auto simp: generate_board.psimps Let_def split: sum.splits)
next
  case (2 i j b)
  then show ?case by (simp add: try_nums.psimps)
next
  case (3 i j num nums b)
  show ?case
  proof (cases "is_num_valid b i j num")
    case (Inl e)
    with 3(1) show ?thesis by (simp add: try_nums.psimps)
  next
    case (Inr ok)
    show ?thesis
    proof (cases ok)
      case False
      with Inr 3(1) 3(4) show ?thesis
        by (auto simp: try_nums.psimps split: sum.splits dest: board_set_shape)
    next
      case True
      show ?thesis
      proof (cases "board_set b i j num")
        case (Inl e)
        with Inr True 3(1) show ?thesis by (simp add: try_nums.psimps)
      next
        case b1: (Inr b1)
        have s1: "map length b1 = map length b" using b1 by (rule board_set_shape)
        obtain r b2 where g: "generate_board i (j + 1) b1 = (r, b2)" by force
        have s2: "map length b2 = map length b"
          using 3(2)[OF Inr _ b1] True g s1 by simp
        show ?thesis
        proof (cases r)
          case (Inl e)
          with Inr True b1 g s2 3(1) show ?thesis by (simp add: try_nums.psimps)
        next
          case r: (Inr ok2)
          show ?thesis
          proof (cases ok2)
            case True
            with r Inr \<open>ok\<close> b1 g s2 3(1) show ?thesis by (simp add: try_nums.psimps)
          next
            case False
            show ?thesis
            proof (cases "board_set b2 i j 0")
              case (Inl e)
              with False r Inr \<open>ok\<close> b1 g s2 3(1) show ?thesis by (simp add: try_nums.psimps)
            next
              case b3: (Inr b3)
              have s3: "map length b3 = map length b" using board_set_shape[OF b3] s2 by simp
              have "map length (snd (try_nums i j nums b3)) = map length b3"
                using 3(3)[OF Inr _ b1 g[symmetric] r _ b3] \<open>ok\<close> False by simp
              with False r Inr \<open>ok\<close> b1 g s3 b3 3(1) show ?thesis by (simp add: try_nums.psimps)
            qed
          qed
        qed
      qed
    qed
  qed
qed

text \<open>Termination: the grid keeps its shape, the cursor only moves forward, and within one
  cell the list of candidates shrinks.\<close>

definition rank :: "(int \<times> int \<times> board) + (int \<times> int \<times> int list \<times> board) \<Rightarrow> nat \<times> nat \<times> nat" where
  "rank x = (case x of
      Inl (i, j, b) \<Rightarrow>
        (if j = 9 then (nat (int (length b) - (i + 1)), nat (int (sum_list (map length b)) + 1), 10)
         else (nat (int (length b) - i), nat (int (sum_list (map length b)) + 1 - j), 10))
    | Inr (i, j, ns, b) \<Rightarrow>
        (nat (int (length b) - i), nat (int (sum_list (map length b)) + 1 - j), length ns))"

lemma py_index_bound: "py_index xs i = Inr v \<Longrightarrow> i < int (length xs)"
  by (auto simp: py_index_def split: if_splits)

lemma py_index_mem: "py_index xs i = Inr v \<Longrightarrow> v \<in> set xs"
  by (auto simp: py_index_def split: if_splits)

lemma py_store_bound: "py_store xs i v = Inr ys \<Longrightarrow> i < int (length xs)"
  by (auto simp: py_store_def split: if_splits)

lemma row_length_le_sum: "r \<in> set b \<Longrightarrow> length r \<le> sum_list (map length b)"
  by (induction b) auto

lemma board_get_bounds:
  assumes "board_get b i j = Inr v"
  shows "i < int (length b) \<and> j < int (sum_list (map length b))"
proof -
  from assms obtain r where r: "py_index b i = Inr r" and v: "py_index r j = Inr v"
    by (auto simp: board_get_def split: sum.splits)
  from r have "length r \<le> sum_list (map length b)"
    by (intro row_length_le_sum py_index_mem)
  with py_index_bound[OF r] py_index_bound[OF v] show ?thesis by simp
qed

lemma board_set_bounds:
  assumes "board_set b i j v = Inr b'"
  shows "i < int (length b) \<and> j < int (sum_list (map length b))"
proof -
  from assms obtain r r' where r: "py_index b i = Inr r" and v: "py_store r j v = Inr r'"
    by (auto simp: board_set_def split: sum.splits)
  from r have "length r \<le> sum_list (map length b)"
    by (intro row_length_le_sum py_index_mem)
  with py_index_bound[OF r] py_store_bound[OF v] show ?thesis by simp
qed

lemma shape_facts:
  "map length b' = map length b \<Longrightarrow>
     length b' = length b \<and> sum_list (map length b') = sum_list (map length b)"
  by (metis length_map)

termination generate_board
proof (relation "inv_image (less_than <*lex*> less_than <*lex*> less_than) rank", goal_cases)
  case 1
  show ?case by (intro wf_inv_image wf_lex_prod wf_less_than)
next
  case (2 i j b x xa ba)
  then show ?case
    by (auto simp: rank_def dest!: board_get_bounds split: if_splits)
next
  case (3 i j b x xa ba)
  then show ?case
    by (auto simp: rank_def dest!: board_get_bounds split: if_splits)
next
  case (4 i j num nums b ba baa)
  from 4(3) have "i < int (length b) \<and> j < int (sum_list (map length b))"
    by (rule board_set_bounds)
  moreover from 4(3) have "length baa = length b \<and> sum_list (map length baa) = sum_list (map length b)"
    by (intro shape_facts board_set_shape)
  ultimately show ?case
    by (auto simp: rank_def)
next
  case (5 i j num nums b ba baa x y bb bc)
  have s1: "map length baa = map length b" using 5(3) by (rule board_set_shape)
  have "map length (snd (generate_board i (j + 1) baa)) = map length baa"
    using 5(8) by (rule shape_dom(1))
  with 5(4) have s2: "map length y = map length baa" by (metis snd_conv)
  have s3: "map length bc = map length y" using 5(7) by (rule board_set_shape)
  have "length bc = length b \<and> sum_list (map length bc) = sum_list (map length b)"
    by (rule shape_facts) (simp add: s1 s2 s3)
  then show ?case
    by (auto simp: rank_def)
next
  case (6 i j num nums b ba baa)
  from 6(3) have "length baa = length b \<and> sum_list (map length baa) = sum_list (map length b)"
    by (intro shape_facts board_set_shape)
  then show ?case
    by (auto simp: rank_def)
qed


subsection \<open>\<^verbatim>\<open>_remove_random_fields\<close> and \<^verbatim>\<open>generate\<close>\<close>

text \<open>
  The rejection loop \<^verbatim>\<open>while not field\<close> draws a row and a column until the cell
  drawn is not zero; nothing bounds the number of draws, so \<open>pick_field\<close> is a partial
  function and \<open>None\<close> stands for a loop that never ends. The table lookup
  \<^verbatim>\<open>self._difficulty[diff_chosen]\<close> comes before the first draw.
\<close>

partial_function (option) pick_field ::
  "source \<Rightarrow> board \<Rightarrow> nat \<Rightarrow> ((error + int \<times> int) \<times> nat) option" where
  "pick_field src b k =
     (case randint src k 0 8 of (rand_row, k1) \<Rightarrow>
      (case randint src k1 0 8 of (rand_col, k2) \<Rightarrow>
        (case board_get b rand_row rand_col of
           Inl e \<Rightarrow> Some (Inl e, k2)
         | Inr field \<Rightarrow>
             if field \<noteq> 0 then Some (Inr (rand_row, rand_col), k2)
             else pick_field src b k2)))"

declare pick_field.simps [code]

fun remove_fields ::
  "source \<Rightarrow> nat \<Rightarrow> board \<times> nat \<Rightarrow> ((error + unit) \<times> board \<times> nat) option" where
  "remove_fields src 0 st = Some (Inr (), st)"
| "remove_fields src (Suc n) (b, k) =
     (case pick_field src b k of
        None \<Rightarrow> None
      | Some (Inl e, k') \<Rightarrow> Some (Inl e, b, k')
      | Some (Inr (rand_row, rand_col), k') \<Rightarrow>
          (case board_set b rand_row rand_col 0 of
             Inl e \<Rightarrow> Some (Inl e, b, k')
           | Inr b' \<Rightarrow> remove_fields src n (b', k')))"

definition remove_random_fields ::
  "source \<Rightarrow> int \<Rightarrow> board \<times> nat \<Rightarrow> ((error + unit) \<times> board \<times> nat) option" where
  "remove_random_fields src diff_chosen st =
     (case map_of difficulty diff_chosen of
        None \<Rightarrow> Some (Inl KeyError, st)
      | Some n \<Rightarrow> remove_fields src n st)"

text \<open>\<^verbatim>\<open>generate\<close> runs the three stages on the grid as it finds it and ignores the
  boolean of the filler.\<close>

definition generate ::
  "source \<Rightarrow> int \<Rightarrow> board \<times> nat \<Rightarrow> ((error + unit) \<times> board \<times> nat) option" where
  "generate src diff_chosen st =
     (case generate_diagonals src st of
        (Inl e, st1) \<Rightarrow> Some (Inl e, st1)
      | (Inr u, b1, k1) \<Rightarrow>
          (case generate_board 0 0 b1 of
             (Inl e, b2) \<Rightarrow> Some (Inl e, b2, k1)
           | (Inr ok, b2) \<Rightarrow> remove_random_fields src diff_chosen (b2, k1)))"


section \<open>Specification vocabulary\<close>

text \<open>
  A well-formed grid has nine rows of nine cells. The 27 units of the grid are its rows,
  its columns and its boxes, each read as a list of nine values. A unit is a permutation
  of 1 to 9 when sorting it gives \<open>[1, \<dots>, 9]\<close>; a grid is solved when every unit is
  one. A grid is consistent when its values lie in \<open>[0, 9]\<close> and no unit holds a non-zero
  value twice. A completion of a grid keeps every non-zero cell of it.
\<close>

definition wf_board :: "board \<Rightarrow> bool" where
  "wf_board b \<longleftrightarrow> length b = 9 \<and> (\<forall>r \<in> set b. length r = 9)"

definition cell :: "board \<Rightarrow> nat \<Rightarrow> nat \<Rightarrow> int" where
  "cell b r c = b ! r ! c"

definition upd :: "board \<Rightarrow> nat \<Rightarrow> nat \<Rightarrow> int \<Rightarrow> board" where
  "upd b r c v = b[r := (b ! r)[c := v]]"

definition row_vals :: "board \<Rightarrow> nat \<Rightarrow> int list" where
  "row_vals b r = map (\<lambda>k. cell b r k) [0..<9]"

definition col_vals :: "board \<Rightarrow> nat \<Rightarrow> int list" where
  "col_vals b c = map (\<lambda>k. cell b k c) [0..<9]"

definition box_vals :: "board \<Rightarrow> nat \<Rightarrow> nat \<Rightarrow> int list" where
  "box_vals b br bc = map (\<lambda>k. cell b (3 * br + k div 3) (3 * bc + k mod 3)) [0..<9]"

definition perm19 :: "int list \<Rightarrow> bool" where
  "perm19 xs \<longleftrightarrow> sort xs = [1, 2, 3, 4, 5, 6, 7, 8, 9]"

definition nodup :: "int list \<Rightarrow> bool" where
  "nodup xs \<longleftrightarrow> distinct (filter (\<lambda>v. v \<noteq> 0) xs)"

definition solved :: "board \<Rightarrow> bool" where
  "solved b \<longleftrightarrow> wf_board b \<and>
     (\<forall>k \<in> set [0..<9]. perm19 (row_vals b k) \<and> perm19 (col_vals b k)
        \<and> perm19 (box_vals b (k div 3) (k mod 3)))"

definition consistent :: "board \<Rightarrow> bool" where
  "consistent b \<longleftrightarrow> wf_board b \<and> (\<forall>r \<in> set b. \<forall>v \<in> set r. 0 \<le> v \<and> v \<le> 9) \<and>
     (\<forall>k \<in> set [0..<9]. nodup (row_vals b k) \<and> nodup (col_vals b k)
        \<and> nodup (box_vals b (k div 3) (k mod 3)))"

definition completion :: "board \<Rightarrow> board \<Rightarrow> bool" where
  "completion b s \<longleftrightarrow> wf_board s \<and>
     (\<forall>r \<in> set [0..<9]. \<forall>c \<in> set [0..<9]. cell b r c \<noteq> 0 \<longrightarrow> cell s r c = cell b r c)"

text \<open>Two cells share a unit when they share the row, the column or the box.\<close>

definition same_unit :: "nat \<Rightarrow> nat \<Rightarrow> nat \<Rightarrow> nat \<Rightarrow> bool" where
  "same_unit r c r' c' \<longleftrightarrow> r = r' \<or> c = c' \<or> (r div 3 = r' div 3 \<and> c div 3 = c' div 3)"

text \<open>The spec's reading of the validity predicate: the value appears in a unit of the
  cell at a different cell. The second predicate drops the words "at a different cell".\<close>

definition occurs_elsewhere :: "board \<Rightarrow> nat \<Rightarrow> nat \<Rightarrow> int \<Rightarrow> bool" where
  "occurs_elsewhere b row col v \<longleftrightarrow>
     (\<exists>r \<in> set [0..<9]. \<exists>c \<in> set [0..<9].
        (r, c) \<noteq> (row, col) \<and> same_unit row col r c \<and> cell b r c = v)"

definition occurs_in_units :: "board \<Rightarrow> nat \<Rightarrow> nat \<Rightarrow> int \<Rightarrow> bool" where
  "occurs_in_units b row col v \<longleftrightarrow>
     (\<exists>r \<in> set [0..<9]. \<exists>c \<in> set [0..<9]. same_unit row col r c \<and> cell b r c = v)"



definition cells_distinct :: "board \<Rightarrow> bool" where
  "cells_distinct b \<longleftrightarrow>
     (\<forall>r < 9. \<forall>c < 9. \<forall>r' < 9. \<forall>c' < 9.
        same_unit r c r' c' \<and> cell b r c = cell b r' c' \<and> cell b r c \<noteq> 0 \<longrightarrow> r = r' \<and> c = c')"

definition filled_before :: "board \<Rightarrow> int \<Rightarrow> int \<Rightarrow> bool" where
  "filled_before b i j \<longleftrightarrow>
     (\<forall>r < 9. \<forall>c < 9. (int r < i \<or> (int r = i \<and> int c < j)) \<longrightarrow> cell b r c \<noteq> 0)"

text \<open>Row-major lexicographic order on grids: the grids are equal cell for cell, or at the
  first cell in row-major order where they differ the left grid holds the smaller value.\<close>

definition row_major_le :: "board \<Rightarrow> board \<Rightarrow> bool" where
  "row_major_le b s \<longleftrightarrow>
     (\<forall>r \<in> set [0..<9]. \<forall>c \<in> set [0..<9]. cell b r c = cell s r c) \<or>
     (\<exists>r \<in> set [0..<9]. \<exists>c \<in> set [0..<9]. cell b r c < cell s r c \<and>
        (\<forall>r' \<in> set [0..<9]. \<forall>c' \<in> set [0..<9].
           r' < r \<or> (r' = r \<and> c' < c) \<longrightarrow> cell b r' c' = cell s r' c'))"

definition found :: "board \<Rightarrow> (error + bool) \<times> board \<Rightarrow> (board \<Rightarrow> bool) \<Rightarrow> bool" where
  "found b res excluded \<longleftrightarrow>
     (\<exists>ok b'. res = (Inr ok, b') \<and>
        (if ok then solved b' \<and> completion b b' \<and>
                    (\<forall>s. solved s \<and> completion b s \<longrightarrow> row_major_le b' s)
         else b' = b \<and> (\<forall>s. solved s \<and> completion b s \<longrightarrow> excluded s)))"

definition pick :: "source \<Rightarrow> nat \<Rightarrow> int set \<Rightarrow> int" where
  "pick src k nums = sorted_list_of_set nums ! (src k mod card nums)"

definition row_post ::
  "int set \<Rightarrow> board \<Rightarrow> nat \<Rightarrow> int list \<Rightarrow> int set \<Rightarrow> board \<Rightarrow> bool" where
  "row_post nums b x ys nums' b' \<longleftrightarrow>
     wf_board b' \<and> nums' \<subseteq> nums \<and> card nums' + length ys = card nums \<and>
     (\<forall>y \<in> set ys. cell b' x (nat y) \<in> nums - nums') \<and>
     inj_on (\<lambda>y. cell b' x (nat y)) (set ys) \<and>
     (\<forall>r < 9. \<forall>c < 9. \<not> (r = x \<and> int c \<in> set ys) \<longrightarrow> cell b' r c = cell b r c)"

definition box_post :: "nat \<Rightarrow> board \<Rightarrow> board \<Rightarrow> bool" where
  "box_post m b b' \<longleftrightarrow>
     wf_board b' \<and> perm19 (box_vals b' m m) \<and>
     (\<forall>r < 9. \<forall>c < 9. \<not> (r div 3 = m \<and> c div 3 = m) \<longrightarrow> cell b' r c = cell b r c)"

definition box_cols :: "nat \<Rightarrow> int list" where
  "box_cols m = [int (3 * m), int (3 * m) + 1, int (3 * m) + 2]"

definition seed_grid :: board where
  "seed_grid =
     [[1,2,3,0,0,0,0,0,0],[4,5,6,0,0,0,0,0,0],[7,8,9,0,0,0,0,0,0],
      [0,0,0,1,2,3,0,0,0],[0,0,0,4,5,6,0,0,0],[0,0,0,7,8,9,0,0,0],
      [0,0,0,0,0,0,1,2,3],[0,0,0,0,0,0,4,5,6],[0,0,0,0,0,0,7,8,9]]"

definition solved_grid :: board where
  "solved_grid =
     [[1,2,3,5,4,7,6,9,8],[4,5,6,2,9,8,3,1,7],[7,8,9,3,6,1,2,4,5],
      [5,6,8,1,2,3,9,7,4],[9,1,7,4,5,6,8,3,2],[2,3,4,7,8,9,5,6,1],
      [6,9,5,8,7,4,1,2,3],[8,7,1,9,3,2,4,5,6],[3,4,2,6,1,5,7,8,9]]"

definition two_way_grid :: board where
  "two_way_grid =
     [[1,0,3,0,4,7,6,9,8],[4,0,6,0,9,8,3,1,7],[7,8,9,3,6,1,2,4,5],
      [5,6,8,1,2,3,9,7,4],[9,1,7,4,5,6,8,3,2],[2,3,4,7,8,9,5,6,1],
      [6,9,5,8,7,4,1,2,3],[8,7,1,9,3,2,4,5,6],[3,4,2,6,1,5,7,8,9]]"

definition other_grid :: board where
  "other_grid =
     [[1,5,3,2,4,7,6,9,8],[4,2,6,5,9,8,3,1,7],[7,8,9,3,6,1,2,4,5],
      [5,6,8,1,2,3,9,7,4],[9,1,7,4,5,6,8,3,2],[2,3,4,7,8,9,5,6,1],
      [6,9,5,8,7,4,1,2,3],[8,7,1,9,3,2,4,5,6],[3,4,2,6,1,5,7,8,9]]"



definition src_scan :: source where
  "src_scan k = (if k < 27 then 0 else if even (k - 27) then ((k - 27) div 2) div 9
                 else ((k - 27) div 2) mod 9)"



definition easy_puzzle :: board where
  "easy_puzzle =
     [[0,0,0,0,0,0,0,0,0],[0,0,0,0,0,0,0,0,0],[0,0,0,0,0,0,0,0,0],
      [0,0,0,0,0,0,0,0,4],[9,1,7,4,5,6,8,3,2],[2,3,4,7,8,9,5,6,1],
      [6,9,5,8,7,4,1,2,3],[8,7,1,9,3,2,4,5,6],[3,4,2,6,1,5,7,8,9]]"

definition agree :: "source \<Rightarrow> source \<Rightarrow> nat \<Rightarrow> nat \<Rightarrow> bool" where
  "agree src src' k k' \<longleftrightarrow> (\<forall>n. k \<le> n \<and> n < k' \<longrightarrow> src' n = src n)"

definition src_alt :: source where
  "src_alt k = (if k < 97 then src_scan k else 5)"


section \<open>Reading and writing cells\<close>

lemma py_store_same: "py_index xs i = Inr v \<Longrightarrow> py_store xs i v = Inr xs"
  by (auto simp: py_index_def py_store_def split: if_splits)

lemma py_store_again: "py_store xs i v = Inr ys \<Longrightarrow> py_store ys i w = py_store xs i w"
  by (auto simp: py_store_def split: if_splits)

lemma py_index_store: "py_store xs i v = Inr ys \<Longrightarrow> py_index ys i = Inr v"
  by (auto simp: py_index_def py_store_def split: if_splits)

lemma board_set_same: "board_get b i j = Inr v \<Longrightarrow> board_set b i j v = Inr b"
  by (auto simp: board_get_def board_set_def py_store_same split: sum.splits)

lemma board_set_again:
  assumes "board_set b i j v = Inr b1"
  shows "board_set b1 i j w = board_set b i j w"
proof -
  from assms obtain r r' where r: "py_index b i = Inr r" and r': "py_store r j v = Inr r'"
    and b1: "py_store b i r' = Inr b1"
    by (auto simp: board_set_def split: sum.splits)
  have "py_index b1 i = Inr r'" using b1 by (rule py_index_store)
  moreover have "py_store r' j w = py_store r j w" using r' by (rule py_store_again)
  moreover have "\<And>q. py_store b1 i q = py_store b i q" using b1 by (rule py_store_again)
  ultimately show ?thesis using r by (simp add: board_set_def split: sum.splits)
qed

lemma board_get_set: 
  assumes "board_set b i j v = Inr b1"
  shows "board_get b1 i j = Inr v"
proof -
  from assms obtain r r' where r: "py_index b i = Inr r" and r': "py_store r j v = Inr r'"
    and b1: "py_store b i r' = Inr b1"
    by (auto simp: board_set_def split: sum.splits)
  have "py_index b1 i = Inr r'" using b1 by (rule py_index_store)
  moreover have "py_index r' j = Inr v" using r' by (rule py_index_store)
  ultimately show ?thesis by (simp add: board_get_def)
qed

lemma py_index_nat: "n < length xs \<Longrightarrow> py_index xs (int n) = Inr (xs ! n)"
  by (simp add: py_index_def)

lemma py_store_nat: "n < length xs \<Longrightarrow> py_store xs (int n) v = Inr (xs[n := v])"
  by (simp add: py_store_def)

lemma wf_row: "wf_board b \<Longrightarrow> r < 9 \<Longrightarrow> length (b ! r) = 9"
  by (simp add: wf_board_def)

lemma board_get_wf:
  "wf_board b \<Longrightarrow> r < 9 \<Longrightarrow> c < 9 \<Longrightarrow> board_get b (int r) (int c) = Inr (cell b r c)"
  by (simp add: board_get_def cell_def py_index_nat wf_row) (simp add: wf_board_def py_index_nat)

lemma board_set_wf:
  "wf_board b \<Longrightarrow> r < 9 \<Longrightarrow> c < 9 \<Longrightarrow> board_set b (int r) (int c) v = Inr (upd b r c v)"
  by (simp add: board_set_def upd_def wf_board_def py_index_nat py_store_nat)

lemma wf_upd: "wf_board b \<Longrightarrow> wf_board (upd b r c v)"
proof -
  assume wf: "wf_board b"
  have "x \<in> set (b[r := (b ! r)[c := v]]) \<Longrightarrow> length x = 9" for x
  proof -
    assume "x \<in> set (b[r := (b ! r)[c := v]])"
    then have "x = (b ! r)[c := v] \<and> r < length b \<or> x \<in> set b"
      by (cases "r < length b") (auto simp: list_update_beyond dest: set_update_subset_insert[THEN subsetD])
    with wf show ?thesis by (auto simp: wf_board_def)
  qed
  with wf show ?thesis by (simp add: wf_board_def upd_def)
qed

lemma cell_upd:
  "wf_board b \<Longrightarrow> r < 9 \<Longrightarrow> c < 9 \<Longrightarrow>
     cell (upd b r c v) r' c' = (if r' = r \<and> c' = c then v else cell b r' c')"
  by (auto simp: cell_def upd_def wf_board_def nth_list_update)

lemma upd_same: "cell b r c = v \<Longrightarrow> upd b r c v = b"
proof -
  assume "cell b r c = v"
  then have "(b ! r)[c := v] = b ! r" unfolding cell_def by (metis list_update_id)
  then show ?thesis unfolding upd_def by (metis list_update_id)
qed

lemma upd_upd: "wf_board b \<Longrightarrow> r < 9 \<Longrightarrow> upd (upd b r c v) r c w = upd b r c w"
  by (simp add: upd_def wf_board_def)

lemma upto_three: "[i..i + 2] = [i, i + 1, i + 2]"
proof -
  have "[i..i + 2] = i # [i + 1..i + 2]" by (simp add: upto_rec1)
  also have "[i + 1..i + 2] = (i + 1) # [i + 2..i + 2]" by (simp add: upto_rec1)
  finally show ?thesis by simp
qed

lemma col_scan_wf:
  "\<forall>x \<in> set xs. c < length x \<Longrightarrow> col_scan xs (int c) num = Inr (\<exists>x \<in> set xs. x ! c = num)"
  by (induction xs) (auto simp: py_index_nat)

lemma box_scan_wf:
  "wf_board b \<Longrightarrow> \<forall>(r, c) \<in> set ps. r < 9 \<and> c < 9 \<Longrightarrow>
     box_scan b (map (\<lambda>(r, c). (int r, int c)) ps) num = Inr (\<exists>(r, c) \<in> set ps. cell b r c = num)"
  by (induction ps) (auto simp: board_get_wf)

lemma box_cells_nat:
  "r < 9 \<Longrightarrow> c < 9 \<Longrightarrow>
   List.product [int r - int r mod 3..int r - int r mod 3 + 2] [int c - int c mod 3..int c - int c mod 3 + 2]
     = map (\<lambda>(r, c). (int r, int c)) (List.product [3 * (r div 3), 3 * (r div 3) + 1, 3 * (r div 3) + 2]
          [3 * (c div 3), 3 * (c div 3) + 1, 3 * (c div 3) + 2])"
proof -
  have r: "int r - int r mod 3 = int (3 * (r div 3))" 
    by (simp add: zmod_int[symmetric] of_nat_mod minus_mod_eq_mult_div flip: of_nat_diff) 
  have c: "int c - int c mod 3 = int (3 * (c div 3))"
    by (simp add: zmod_int[symmetric] of_nat_mod minus_mod_eq_mult_div flip: of_nat_diff)
  show ?thesis unfolding r c upto_three by simp
qed


section \<open>The validity predicate on a well-formed grid\<close>

lemma bex_upt9: "(\<exists>k \<in> set [0..<9]. P k) \<longleftrightarrow> (\<exists>k < 9. P k)"
  by (simp add: Bex_def)

lemma ball_upt9: "(\<forall>k \<in> set [0..<9]. P k) \<longleftrightarrow> (\<forall>k < 9. P k)"
  by (simp add: Ball_def)

lemma is_num_valid_wf:
  assumes "wf_board b" "r < 9" "c < 9"
  shows "is_num_valid b (int r) (int c) num = Inr (\<not> occurs_in_units b r c num)"
proof -
  define ps where "ps = List.product [3 * (r div 3), 3 * (r div 3) + 1, 3 * (r div 3) + 2]
          [3 * (c div 3), 3 * (c div 3) + 1, 3 * (c div 3) + 2]"
  define A where "A \<longleftrightarrow> num \<in> set (b ! r)"
  define B where "B \<longleftrightarrow> (\<exists>x \<in> set b. x ! c = num)"
  define C where "C \<longleftrightarrow> (\<exists>(r, c) \<in> set ps. cell b r c = num)"
  have "3 * (r div 3) + 2 < 9" "3 * (c div 3) + 2 < 9" using assms(2,3) by presburger+
  then have ps: "\<forall>(r, c) \<in> set ps. r < 9 \<and> c < 9" by (auto simp: ps_def)
  have len: "length b = 9" "\<And>k. k < 9 \<Longrightarrow> length (b ! k) = 9"
    using assms(1) by (simp_all add: wf_board_def)
  have cs: "col_scan b (int c) num = Inr B"
    unfolding B_def using assms(1,3) by (intro col_scan_wf) (simp add: wf_board_def)
  have bs: "box_scan b (List.product [int r - int r mod 3..int r - int r mod 3 + 2]
       [int c - int c mod 3..int c - int c mod 3 + 2]) num = Inr C"
    unfolding box_cells_nat[OF assms(2,3)] C_def ps_def[symmetric] using assms(1) ps by (rule box_scan_wf)
  have eval: "is_num_valid b (int r) (int c) num = Inr (\<not> (A \<or> B \<or> C))"
    unfolding is_num_valid_def Let_def bs cs
    using len(1) assms(2) by (cases B; cases C; simp add: py_index_nat A_def)
  have A: "A \<longleftrightarrow> (\<exists>k < 9. cell b r k = num)"
    using len(2)[OF assms(2)] by (auto simp: in_set_conv_nth cell_def A_def)
  have B: "B \<longleftrightarrow> (\<exists>k < 9. cell b k c = num)"
    using len(1) unfolding B_def cell_def by (metis in_set_conv_nth)
  have C: "C \<longleftrightarrow> (\<exists>r' < 9. \<exists>c' < 9. r' div 3 = r div 3 \<and> c' div 3 = c div 3 \<and> cell b r' c' = num)"
    (is "_ \<longleftrightarrow> ?C'")
  proof
    assume C
    then obtain r' c' where m: "(r', c') \<in> set ps" and v: "cell b r' c' = num"
      by (auto simp: C_def)
    from m have rr: "r' = 3 * (r div 3) \<or> r' = 3 * (r div 3) + 1 \<or> r' = 3 * (r div 3) + 2"
      and cc: "c' = 3 * (c div 3) \<or> c' = 3 * (c div 3) + 1 \<or> c' = 3 * (c div 3) + 2"
      by (auto simp: ps_def)
    from rr have "r' div 3 = r div 3" by presburger
    moreover from cc have "c' div 3 = c div 3" by presburger
    moreover from m ps have "r' < 9 \<and> c' < 9" by auto
    ultimately show ?C' using v by blast
  next
    assume ?C'
    then obtain r' c' where h: "r' < 9" "c' < 9" "r' div 3 = r div 3" "c' div 3 = c div 3"
      and v: "cell b r' c' = num" by blast
    have "r' = 3 * (r div 3) \<or> r' = 3 * (r div 3) + 1 \<or> r' = 3 * (r div 3) + 2"
      using h(3) by presburger
    moreover have "c' = 3 * (c div 3) \<or> c' = 3 * (c div 3) + 1 \<or> c' = 3 * (c div 3) + 2"
      using h(4) by presburger
    ultimately have "(r', c') \<in> set ps" by (auto simp: ps_def)
    with v show C unfolding C_def by blast
  qed
  have "occurs_in_units b r c num \<longleftrightarrow>
      (\<exists>r' < 9. \<exists>c' < 9. same_unit r c r' c' \<and> cell b r' c' = num)"
    unfolding occurs_in_units_def by (simp only: bex_upt9)
  also have "\<dots> \<longleftrightarrow> (A \<or> B \<or> C)"
  proof
    assume "\<exists>r' < 9. \<exists>c' < 9. same_unit r c r' c' \<and> cell b r' c' = num"
    then obtain r' c' where h: "r' < 9" "c' < 9" "same_unit r c r' c'" "cell b r' c' = num"
      by blast
    from h(3) consider "r = r'" | "c = c'" | "r' div 3 = r div 3 \<and> c' div 3 = c div 3"
      unfolding same_unit_def by metis
    then show "A \<or> B \<or> C"
    proof cases
      case 1
      with h have A unfolding A by blast
      then show ?thesis by simp
    next
      case 2
      with h have B unfolding B by blast
      then show ?thesis by simp
    next
      case 3
      with h have C unfolding C by blast
      then show ?thesis by simp
    qed
  next
    assume "A \<or> B \<or> C"
    then consider A | B | C by blast
    then show "\<exists>r' < 9. \<exists>c' < 9. same_unit r c r' c' \<and> cell b r' c' = num"
    proof cases
      case 1
      then obtain k where "k < 9" "cell b r k = num" unfolding A by blast
      moreover have "same_unit r c r k" by (simp add: same_unit_def)
      ultimately show ?thesis using assms(2) by blast
    next
      case 2
      then obtain k where "k < 9" "cell b k c = num" unfolding B by blast
      moreover have "same_unit r c k c" by (simp add: same_unit_def)
      ultimately show ?thesis using assms(3) by blast
    next
      case 3
      then obtain r' c' where "r' < 9" "c' < 9" "r' div 3 = r div 3" "c' div 3 = c div 3"
        "cell b r' c' = num" unfolding C by blast
      moreover from this have "same_unit r c r' c'" by (simp add: same_unit_def)
      ultimately show ?thesis by blast
    qed
  qed
  finally show ?thesis using eval by simp
qed


section \<open>A failed search leaves the grid as it was\<close>

lemma filler_failure_restores:
  "fst (generate_board i j b) = Inr False \<Longrightarrow> snd (generate_board i j b) = b"
  "board_get b i j = Inr 0 \<Longrightarrow> fst (try_nums i j ns b) = Inr False \<Longrightarrow> snd (try_nums i j ns b) = b"
proof (induction i j b and i j ns b rule: generate_board_try_nums.induct)
  case (1 i j b)
  show ?case
  proof (cases "i = 8 \<and> j = 9")
    case True
    then show ?thesis by simp
  next
    case False
    define i' where "i' = (if j = 9 then i + 1 else i)"
    define j' where "j' = (if j = 9 then 0 else j)"
    show ?thesis
    proof (cases "board_get b i' j'")
      case (Inl e)
      with False 1(3) show ?thesis by (auto simp: i'_def j'_def Let_def)
    next
      case (Inr v)
      show ?thesis
      proof (cases "v = 0")
        case True
        have eq: "generate_board i j b = try_nums i' j' [1..9] b"
          using False Inr True by (auto simp: i'_def j'_def Let_def)
        show ?thesis
          using 1(2)[OF False i'_def j'_def Inr] True Inr 1(3) unfolding eq by simp
      next
        case nz: False
        have eq: "generate_board i j b = generate_board i' (j' + 1) b"
          using False Inr nz by (auto simp: i'_def j'_def Let_def)
        show ?thesis
          using 1(1)[OF False i'_def j'_def Inr nz] 1(3) unfolding eq by simp
      qed
    qed
  qed
next
  case (2 i j b)
  then show ?case by simp
next
  case (3 i j num nums b)
  have set0: "board_set b i j 0 = Inr b" using 3(4) by (rule board_set_same)
  show ?case
  proof (cases "is_num_valid b i j num")
    case (Inl e)
    with 3(5) show ?thesis by simp
  next
    case (Inr ok)
    show ?thesis
    proof (cases ok)
      case False
      have eq: "try_nums i j (num # nums) b = try_nums i j nums b"
        using Inr False set0 by simp
      show ?thesis
        using 3(3)[OF Inr _ set0] False 3(4) 3(5) unfolding eq by simp
    next
      case True
      show ?thesis
      proof (cases "board_set b i j num")
        case (Inl e)
        with Inr True 3(5) show ?thesis by simp
      next
        case b1: (Inr b1)
        obtain r b2 where g: "generate_board i (j + 1) b1 = (r, b2)" by force
        show ?thesis
        proof (cases r)
          case (Inl e)
          with Inr True b1 g 3(5) show ?thesis by simp
        next
          case r: (Inr ok2)
          show ?thesis
          proof (cases ok2)
            case True
            with r Inr \<open>ok\<close> b1 g 3(5) show ?thesis by simp
          next
            case False
            have "b2 = b1" using 3(1)[OF Inr _ b1] \<open>ok\<close> g r False by simp
            then have b3: "board_set b2 i j 0 = Inr b"
              using board_set_again[OF b1, of 0] set0 by simp
            have eq: "try_nums i j (num # nums) b = try_nums i j nums b"
              using Inr \<open>ok\<close> b1 g r False b3 by simp
            show ?thesis
              using 3(2)[OF Inr _ b1 g[symmetric] r _ b3] \<open>ok\<close> False 3(4) 3(5) unfolding eq by simp
          qed
        qed
      qed
    qed
  qed
qed


section \<open>Claims about single operations\<close>

definition grid_one_five :: board where
  "grid_one_five =
     [[5,0,0,0,0,0,0,0,0],[0,0,0,0,0,0,0,0,0],[0,0,0,0,0,0,0,0,0],
      [0,0,0,0,0,0,0,0,0],[0,0,0,0,0,0,0,0,0],[0,0,0,0,0,0,0,0,0],
      [0,0,0,0,0,0,0,0,0],[0,0,0,0,0,0,0,0,0],[0,0,0,0,0,0,0,0,0]]"

definition grid_stuck :: board where
  "grid_stuck =
     [[0,1,2,3,4,5,6,7,8],[9,0,0,0,0,0,0,0,0],[0,0,0,0,0,0,0,0,0],
      [0,0,0,0,0,0,0,0,0],[0,0,0,0,0,0,0,0,0],[0,0,0,0,0,0,0,0,0],
      [0,0,0,0,0,0,0,0,0],[0,0,0,0,0,0,0,0,0],[0,0,0,0,0,0,0,0,0]]"

lemma occurs_elsewhere_iff:
  "occurs_elsewhere b r c v \<longleftrightarrow>
     (\<exists>r' < 9. \<exists>c' < 9. (r', c') \<noteq> (r, c) \<and> same_unit r c r' c' \<and> cell b r' c' = v)"
  unfolding occurs_elsewhere_def by (simp only: bex_upt9)

lemma occurs_in_units_iff:
  "occurs_in_units b r c v \<longleftrightarrow> (\<exists>r' < 9. \<exists>c' < 9. same_unit r c r' c' \<and> cell b r' c' = v)"
  unfolding occurs_in_units_def by (simp only: bex_upt9)

lemma occurs_in_units_split:
  assumes "r < 9" "c < 9"
  shows "occurs_in_units b r c v \<longleftrightarrow> cell b r c = v \<or> occurs_elsewhere b r c v"
proof
  assume "occurs_in_units b r c v"
  then obtain r' c' where h: "r' < 9" "c' < 9" "same_unit r c r' c'" "cell b r' c' = v"
    unfolding occurs_in_units_iff by blast
  show "cell b r c = v \<or> occurs_elsewhere b r c v"
  proof (cases "(r', c') = (r, c)")
    case True
    with h(4) show ?thesis by simp
  next
    case False
    with h have "occurs_elsewhere b r c v" unfolding occurs_elsewhere_iff by blast
    then show ?thesis by simp
  qed
next
  assume "cell b r c = v \<or> occurs_elsewhere b r c v"
  then show "occurs_in_units b r c v"
  proof
    assume "cell b r c = v"
    moreover have "same_unit r c r c" by (simp add: same_unit_def)
    ultimately show ?thesis unfolding occurs_in_units_iff using assms by blast
  next
    assume "occurs_elsewhere b r c v"
    then show ?thesis unfolding occurs_in_units_iff occurs_elsewhere_iff by blast
  qed
qed

text \<open>
  C1 (as the spec states it, refuted): the validity predicate is claimed to return false
  exactly when the value appears in the row, the column or the box at a cell other than
  the candidate cell. On the grid whose only non-zero cell is a 5 at (0, 0), the value 5
  appears at no other cell, and \<open>_is_num_valid(0, 0, 5)\<close> returns False all the same:
  the scan of the row reads the candidate cell too.
\<close>

theorem is_num_valid_scans_candidate_cell:
  "is_num_valid grid_one_five 0 0 5 = Inr False \<and> \<not> occurs_elsewhere grid_one_five 0 0 5"
  by (simp add: grid_one_five_def is_num_valid_def py_index_def occurs_elsewhere_def
      same_unit_def cell_def upt_rec)

text \<open>
  C1 (amended): on a well-formed grid, for row and column in \<open>[0, 8]\<close> and any value,
  \<open>_is_num_valid\<close> raises nothing and returns false exactly when the value appears
  somewhere in the row, the column or the box of the cell, the candidate cell included.
  When the candidate cell does not hold the value (the filler calls the predicate on an
  empty cell with a value of 1 to 9), this is the same as appearing at a different cell.
\<close>

theorem is_num_valid_false_iff_occurs:
  assumes "wf_board b" "0 \<le> row" "row \<le> 8" "0 \<le> col" "col \<le> 8"
  shows "is_num_valid b row col num = Inr (\<not> occurs_in_units b (nat row) (nat col) num) \<and>
         (cell b (nat row) (nat col) \<noteq> num \<longrightarrow>
            is_num_valid b row col num = Inr (\<not> occurs_elsewhere b (nat row) (nat col) num))"
proof -
  have r: "nat row < 9" and c: "nat col < 9" using assms by simp_all
  have "is_num_valid b (int (nat row)) (int (nat col)) num
          = Inr (\<not> occurs_in_units b (nat row) (nat col) num)"
    using assms(1) r c by (rule is_num_valid_wf)
  then have v: "is_num_valid b row col num = Inr (\<not> occurs_in_units b (nat row) (nat col) num)"
    using assms by simp
  show ?thesis using v occurs_in_units_split[OF r c, of b num] by simp
qed

theorem is_num_valid_false_iff_occurs_witness:
  "is_num_valid grid_stuck 0 0 9 = Inr (\<not> occurs_in_units grid_stuck (nat 0) (nat 0) 9) \<and>
   is_num_valid grid_stuck 0 0 9 = Inr (\<not> occurs_elsewhere grid_stuck (nat 0) (nat 0) 9) \<and>
   is_num_valid grid_stuck 0 0 9 = Inr False"
proof -
  have wf: "wf_board grid_stuck" by (simp add: wf_board_def grid_stuck_def)
  have ne: "cell grid_stuck (nat 0) (nat 0) \<noteq> 9" by (simp add: cell_def grid_stuck_def)
  have ev: "is_num_valid grid_stuck 0 0 9 = Inr False"
    by (simp add: grid_stuck_def is_num_valid_def py_index_def)
  show ?thesis
    using is_num_valid_false_iff_occurs[of grid_stuck 0 0 9, OF wf] ne ev by simp
qed

text \<open>
  C9: whenever the filler returns False, the grid it leaves is the grid it was called on,
  cell for cell. This holds from every cursor and for every grid, consistent or not.
\<close>

theorem generate_board_false_restores_grid:
  "generate_board i j b = (Inr False, b') \<Longrightarrow> b' = b"
  using filler_failure_restores(1)[of i j b] by simp

theorem generate_board_false_restores_grid_witness:
  "generate_board 0 0 grid_stuck = (Inr False, snd (generate_board 0 0 grid_stuck)) \<and>
   snd (generate_board 0 0 grid_stuck) = grid_stuck"
proof -
  have "fst (generate_board 0 0 grid_stuck) = Inr False"
    by (simp add: grid_stuck_def is_num_valid_def py_index_def py_store_def board_get_def
        board_set_def upto_rec1 Let_def)
  then have e: "generate_board 0 0 grid_stuck = (Inr False, snd (generate_board 0 0 grid_stuck))"
    by (metis prod.collapse)
  from generate_board_false_restores_grid[OF e] e show ?thesis by simp
qed

text \<open>
  C10: for row and column in \<open>[0, 8]\<close> and every integer value, \<open>insert_value\<close> stores
  the value without any check, \<open>get_value\<close> at the same cell then returns it, and
  every other cell reads as before.
\<close>

theorem insert_value_then_get_value:
  assumes "wf_board b" "0 \<le> row" "row \<le> 8" "0 \<le> col" "col \<le> 8"
  shows "\<exists>b'. insert_value b row col v = Inr b' \<and> wf_board b' \<and>
           get_value b' row col = Inr v \<and>
           (\<forall>r c. 0 \<le> r \<and> r \<le> 8 \<and> 0 \<le> c \<and> c \<le> 8 \<and> (r, c) \<noteq> (row, col)
              \<longrightarrow> get_value b' r c = get_value b r c)"
proof -
  let ?b' = "upd b (nat row) (nat col) v"
  have r: "nat row < 9" and c: "nat col < 9" using assms by simp_all
  have wf': "wf_board ?b'" using assms(1) by (rule wf_upd)
  have "board_set b (int (nat row)) (int (nat col)) v = Inr ?b'"
    using assms(1) r c by (rule board_set_wf)
  then have ins: "insert_value b row col v = Inr ?b'"
    using assms by (simp add: insert_value_def)
  have "board_get ?b' (int (nat row)) (int (nat col)) = Inr (cell ?b' (nat row) (nat col))"
    using wf' r c by (rule board_get_wf)
  then have get: "get_value ?b' row col = Inr v"
    using assms r c by (simp add: get_value_def cell_upd)
  have other: "get_value ?b' r' c' = get_value b r' c'"
    if h: "0 \<le> r'" "r' \<le> 8" "0 \<le> c'" "c' \<le> 8" "(r', c') \<noteq> (row, col)" for r' c'
  proof -
    have r': "nat r' < 9" and c': "nat c' < 9" using h by simp_all
    have ne: "\<not> (nat r' = nat row \<and> nat c' = nat col)" using h assms by auto
    have "board_get ?b' (int (nat r')) (int (nat c')) = Inr (cell ?b' (nat r') (nat c'))"
      using wf' r' c' by (rule board_get_wf)
    moreover have "board_get b (int (nat r')) (int (nat c')) = Inr (cell b (nat r') (nat c'))"
      using assms(1) r' c' by (rule board_get_wf)
    moreover have "cell ?b' (nat r') (nat c') = cell b (nat r') (nat c')"
      using ne by (auto simp: cell_upd[OF assms(1) r c])
    ultimately show ?thesis using h by (simp add: get_value_def)
  qed
  show ?thesis using ins wf' get other by blast
qed

theorem insert_value_then_get_value_witness:
  "\<exists>b'. insert_value grid_stuck 0 0 (-7) = Inr b' \<and> wf_board b' \<and>
      get_value b' 0 0 = Inr (-7) \<and>
      (\<forall>r c. 0 \<le> r \<and> r \<le> 8 \<and> 0 \<le> c \<and> c \<le> 8 \<and> (r, c) \<noteq> (0, 0)
         \<longrightarrow> get_value b' r c = get_value grid_stuck r c)"
proof -
  have wf: "wf_board grid_stuck" by (simp add: wf_board_def grid_stuck_def)
  show ?thesis using insert_value_then_get_value[of grid_stuck 0 0 "-7", OF wf] by simp
qed


section \<open>Units, consistent grids and solved grids\<close>

lemma nodup_Cons: "nodup (x # xs) \<longleftrightarrow> (x \<noteq> 0 \<longrightarrow> x \<notin> set xs) \<and> nodup xs"
  by (auto simp: nodup_def)

lemma nodup_iff:
  "nodup xs \<longleftrightarrow> (\<forall>i < length xs. \<forall>j < length xs. xs ! i = xs ! j \<and> xs ! i \<noteq> 0 \<longrightarrow> i = j)"
proof (induction xs)
  case Nil
  then show ?case by (simp add: nodup_def)
next
  case (Cons x xs)
  show ?case
  proof
    assume l: "nodup (x # xs)"
    then have x: "x \<noteq> 0 \<longrightarrow> x \<notin> set xs" and n: "nodup xs" by (simp_all add: nodup_Cons)
    show "\<forall>i < length (x # xs). \<forall>j < length (x # xs).
            (x # xs) ! i = (x # xs) ! j \<and> (x # xs) ! i \<noteq> 0 \<longrightarrow> i = j"
    proof (intro allI impI)
      fix i j
      assume i: "i < length (x # xs)" and j: "j < length (x # xs)"
        and e: "(x # xs) ! i = (x # xs) ! j \<and> (x # xs) ! i \<noteq> 0"
      show "i = j"
      proof (cases i)
        case 0
        show ?thesis
        proof (cases j)
          case 0
          with \<open>i = 0\<close> show ?thesis by simp
        next
          case (Suc j')
          with 0 e j x show ?thesis by (auto simp: in_set_conv_nth)
        qed
      next
        case (Suc i')
        show ?thesis
        proof (cases j)
          case 0
          with Suc e i x show ?thesis by (auto simp: in_set_conv_nth)
        next
          case (Suc j')
          with \<open>i = Suc i'\<close> e i j n Cons.IH show ?thesis by auto
        qed
      qed
    qed
  next
    assume r: "\<forall>i < length (x # xs). \<forall>j < length (x # xs).
            (x # xs) ! i = (x # xs) ! j \<and> (x # xs) ! i \<noteq> 0 \<longrightarrow> i = j"
    have "x \<notin> set xs" if "x \<noteq> 0"
    proof
      assume "x \<in> set xs"
      then obtain k where k: "k < length xs" "xs ! k = x" by (auto simp: in_set_conv_nth)
      with r[rule_format, of 0 "Suc k"] that show False by simp
    qed
    moreover have "nodup xs"
      unfolding Cons.IH
    proof (intro allI impI)
      fix i j assume "i < length xs" "j < length xs" "xs ! i = xs ! j \<and> xs ! i \<noteq> 0"
      with r[rule_format, of "Suc i" "Suc j"] show "i = j" by simp
    qed
    ultimately show "nodup (x # xs)" by (simp add: nodup_Cons)
  qed
qed

lemma perm19_props: "perm19 xs \<Longrightarrow> distinct xs \<and> set xs = {1..9} \<and> length xs = 9"
proof -
  assume p: "perm19 xs"
  let ?l = "[1, 2, 3, 4, 5, 6, 7, 8, 9 :: int]"
  from p have s: "sort xs = ?l" by (simp add: perm19_def)
  have "distinct (sort xs)" unfolding s by simp
  then have d: "distinct xs" by simp
  have "set (sort xs) = set ?l" unfolding s ..
  then have "set xs = set ?l" by simp
  also have "set ?l = {1..9}" by auto
  finally have st: "set xs = {1..9}" .
  have "length (sort xs) = 9" unfolding s by simp
  then have "length xs = 9" by simp
  with d st show ?thesis by simp
qed

lemma perm19_intro:
  assumes "distinct xs" "length xs = 9" "set xs \<subseteq> {1..9}"
  shows "perm19 xs"
proof -
  let ?l = "[1, 2, 3, 4, 5, 6, 7, 8, 9 :: int]"
  have "card (set xs) = 9" using assms(1,2) by (simp add: distinct_card)
  moreover have "card {1..9::int} = 9" by simp
  ultimately have st: "set xs = {1..9}"
    using assms(3) by (metis card_subset_eq finite_atLeastAtMost_int)
  have "set ?l = {1..9}" by auto
  have "sort xs = ?l"
  proof (rule sorted_distinct_set_unique)
    show "sorted (sort xs)" by simp
    show "distinct (sort xs)" using assms(1) by simp
    show "sorted ?l" by simp
    show "distinct ?l" by simp
    show "set (sort xs) = set ?l" using st \<open>set ?l = {1..9}\<close> by simp
  qed
  then show ?thesis by (simp add: perm19_def)
qed

lemma unit_length [simp]:
  "length (row_vals b r) = 9" "length (col_vals b c) = 9" "length (box_vals b br bc) = 9"
  by (simp_all add: row_vals_def col_vals_def box_vals_def)

lemma unit_nth:
  "k < 9 \<Longrightarrow> row_vals b r ! k = cell b r k"
  "k < 9 \<Longrightarrow> col_vals b c ! k = cell b k c"
  "k < 9 \<Longrightarrow> box_vals b br bc ! k = cell b (3 * br + k div 3) (3 * bc + k mod 3)"
  by (simp_all add: row_vals_def col_vals_def box_vals_def del: upt_Suc)

lemma box_index:
  fixes r c :: nat
  assumes "r < 9" "c < 9"
  shows "3 * (r mod 3) + c mod 3 < 9"
    and "3 * (r div 3) + (3 * (r mod 3) + c mod 3) div 3 = r"
    and "3 * (c div 3) + (3 * (r mod 3) + c mod 3) mod 3 = c"
    and "3 * (r div 3) + c div 3 < 9"
proof -
  have m: "r mod 3 < 3" "c mod 3 < 3" by simp_all
  have d: "r div 3 < 3" "c div 3 < 3" using assms by simp_all
  show "3 * (r mod 3) + c mod 3 < 9" using m by linarith
  show "3 * (r div 3) + (3 * (r mod 3) + c mod 3) div 3 = r" by simp
  show "3 * (c div 3) + (3 * (r mod 3) + c mod 3) mod 3 = c" by simp
  show "3 * (r div 3) + c div 3 < 9" using d by linarith
qed

lemma box_number:
  fixes r c :: nat
  assumes "r < 9" "c < 9"
  shows "(3 * (r div 3) + c div 3) div 3 = r div 3" "(3 * (r div 3) + c div 3) mod 3 = c div 3"
proof -
  have d: "r div 3 < 3" "c div 3 < 3" using assms by simp_all
  show "(3 * (r div 3) + c div 3) div 3 = r div 3" using d by simp
  show "(3 * (r div 3) + c div 3) mod 3 = c div 3" using d by simp
qed

lemma box_index_inj:
  fixes r c r' c' :: nat
  assumes "3 * (r mod 3) + c mod 3 = 3 * (r' mod 3) + c' mod 3"
  shows "r mod 3 = r' mod 3 \<and> c mod 3 = c' mod 3"
proof -
  have "(3 * (r mod 3) + c mod 3) div 3 = (3 * (r' mod 3) + c' mod 3) div 3"
       "(3 * (r mod 3) + c mod 3) mod 3 = (3 * (r' mod 3) + c' mod 3) mod 3"
    using assms by simp_all
  then show ?thesis by simp
qed

lemma box_cell_bounds:
  fixes i j k :: nat
  assumes "i < 9" "j < 9" "k < 9"
  shows "3 * (k div 3) + i div 3 < 9" "3 * (k mod 3) + i mod 3 < 9"
    "(3 * (k div 3) + i div 3) div 3 = (3 * (k div 3) + j div 3) div 3"
    "(3 * (k mod 3) + i mod 3) div 3 = (3 * (k mod 3) + j mod 3) div 3"
proof -
  have d: "i div 3 < 3" "j div 3 < 3" "k div 3 < 3" using assms by simp_all
  have m: "i mod 3 < 3" "j mod 3 < 3" "k mod 3 < 3" by simp_all
  show "3 * (k div 3) + i div 3 < 9" using d by linarith
  show "3 * (k mod 3) + i mod 3 < 9" using m by linarith
  show "(3 * (k div 3) + i div 3) div 3 = (3 * (k div 3) + j div 3) div 3" using d by simp
  show "(3 * (k mod 3) + i mod 3) div 3 = (3 * (k mod 3) + j mod 3) div 3" by simp
qed

lemma box_vals_cell:
  "r < 9 \<Longrightarrow> c < 9 \<Longrightarrow> box_vals b (r div 3) (c div 3) ! (3 * (r mod 3) + c mod 3) = cell b r c"
  by (simp add: unit_nth(3) box_index)

lemma units_nodup_imp_cells_distinct:
  assumes "\<forall>k < 9. nodup (row_vals b k) \<and> nodup (col_vals b k)
             \<and> nodup (box_vals b (k div 3) (k mod 3))"
  shows "cells_distinct b"
  unfolding cells_distinct_def
proof (intro allI impI)
  fix r c r' c' :: nat
  assume r: "r < 9" and c: "c < 9" and r': "r' < 9" and c': "c' < 9"
    and h: "same_unit r c r' c' \<and> cell b r c = cell b r' c' \<and> cell b r c \<noteq> 0"
  from h consider "r = r'" | "c = c'" | "r div 3 = r' div 3 \<and> c div 3 = c' div 3"
    unfolding same_unit_def by metis
  then show "r = r' \<and> c = c'"
  proof cases
    case 1
    have "nodup (row_vals b r)" using assms r by blast
    then have "c = c'"
      unfolding nodup_iff using h 1 c c' by (auto simp: unit_nth)
    with 1 show ?thesis by simp
  next
    case 2
    have "nodup (col_vals b c)" using assms c by blast
    then have "r = r'"
      unfolding nodup_iff using h 2 r r' by (auto simp: unit_nth)
    with 2 show ?thesis by simp
  next
    case 3
    let ?k = "3 * (r div 3) + c div 3"
    let ?i = "3 * (r mod 3) + c mod 3" and ?j = "3 * (r' mod 3) + c' mod 3"
    have k: "?k < 9" "?k div 3 = r div 3" "?k mod 3 = c div 3"
      using box_index(4)[OF r c] box_number[OF r c] by simp_all
    have "nodup (box_vals b (?k div 3) (?k mod 3))" using assms k(1) by blast
    then have n: "nodup (box_vals b (r div 3) (c div 3))" unfolding k(2,3) .
    have i: "?i < 9" and j: "?j < 9" using r c r' c' by (simp_all add: box_index)
    have vi: "box_vals b (r div 3) (c div 3) ! ?i = cell b r c" using r c by (rule box_vals_cell)
    have vj: "box_vals b (r div 3) (c div 3) ! ?j = cell b r' c'"
      using box_vals_cell[OF r' c', of b] 3 by simp
    have "?i = ?j"
      using n[unfolded nodup_iff, rule_format, of ?i ?j] i j vi vj h by simp
    then have "r mod 3 = r' mod 3 \<and> c mod 3 = c' mod 3" by (rule box_index_inj)
    with 3 show ?thesis by (metis div_mult_mod_eq)
  qed
qed

lemma cells_distinct_imp_units_nodup:
  assumes "cells_distinct b" "k < 9"
  shows "nodup (row_vals b k) \<and> nodup (col_vals b k) \<and> nodup (box_vals b (k div 3) (k mod 3))"
proof (intro conjI)
  show "nodup (row_vals b k)"
    unfolding nodup_iff
  proof (intro allI impI)
    fix i j assume "i < length (row_vals b k)" "j < length (row_vals b k)"
      "row_vals b k ! i = row_vals b k ! j \<and> row_vals b k ! i \<noteq> 0"
    then have "i < 9" "j < 9" "cell b k i = cell b k j" "cell b k i \<noteq> 0"
      by (simp_all add: unit_nth)
    moreover have "same_unit k i k j" by (simp add: same_unit_def)
    ultimately show "i = j" using assms unfolding cells_distinct_def by blast
  qed
  show "nodup (col_vals b k)"
    unfolding nodup_iff
  proof (intro allI impI)
    fix i j assume "i < length (col_vals b k)" "j < length (col_vals b k)"
      "col_vals b k ! i = col_vals b k ! j \<and> col_vals b k ! i \<noteq> 0"
    then have "i < 9" "j < 9" "cell b i k = cell b j k" "cell b i k \<noteq> 0"
      by (simp_all add: unit_nth)
    moreover have "same_unit i k j k" by (simp add: same_unit_def)
    ultimately show "i = j" using assms unfolding cells_distinct_def by blast
  qed
  show "nodup (box_vals b (k div 3) (k mod 3))"
    unfolding nodup_iff
  proof (intro allI impI)
    fix i j
    let ?br = "k div 3" and ?bc = "k mod 3"
    assume "i < length (box_vals b ?br ?bc)" "j < length (box_vals b ?br ?bc)"
      "box_vals b ?br ?bc ! i = box_vals b ?br ?bc ! j \<and> box_vals b ?br ?bc ! i \<noteq> 0"
    then have ij: "i < 9" "j < 9"
      and e: "cell b (3 * ?br + i div 3) (3 * ?bc + i mod 3) = cell b (3 * ?br + j div 3) (3 * ?bc + j mod 3)"
      and nz: "cell b (3 * ?br + i div 3) (3 * ?bc + i mod 3) \<noteq> 0"
      by (simp_all add: unit_nth)
    have b1: "3 * ?br + i div 3 < 9" "3 * ?bc + i mod 3 < 9"
      "3 * ?br + j div 3 < 9" "3 * ?bc + j mod 3 < 9"
      using box_cell_bounds(1,2)[OF ij(1) ij(2) assms(2)] box_cell_bounds(1,2)[OF ij(2) ij(1) assms(2)]
      by simp_all
    have "(3 * ?br + i div 3) div 3 = (3 * ?br + j div 3) div 3"
      "(3 * ?bc + i mod 3) div 3 = (3 * ?bc + j mod 3) div 3"
      using box_cell_bounds(3,4)[OF ij(1) ij(2) assms(2)] by simp_all
    then have su: "same_unit (3 * ?br + i div 3) (3 * ?bc + i mod 3) (3 * ?br + j div 3) (3 * ?bc + j mod 3)"
      by (simp add: same_unit_def)
    have "3 * ?br + i div 3 = 3 * ?br + j div 3 \<and> 3 * ?bc + i mod 3 = 3 * ?bc + j mod 3"
      using assms(1)[unfolded cells_distinct_def, rule_format, OF b1(1) b1(2) b1(3) b1(4)] su e nz
      by blast
    then have "i div 3 = j div 3 \<and> i mod 3 = j mod 3" by simp
    then show "i = j" by (metis div_mult_mod_eq)
  qed
qed

lemma cells_in_range_iff:
  assumes "wf_board b"
  shows "(\<forall>r \<in> set b. \<forall>v \<in> set r. P v) \<longleftrightarrow> (\<forall>r < 9. \<forall>c < 9. P (cell b r c))"
proof
  assume l: "\<forall>r \<in> set b. \<forall>v \<in> set r. P v"
  show "\<forall>r < 9. \<forall>c < 9. P (cell b r c)"
  proof (intro allI impI)
    fix r c :: nat assume "r < 9" "c < 9"
    with assms have "b ! r \<in> set b" "b ! r ! c \<in> set (b ! r)" by (simp_all add: wf_board_def)
    with l show "P (cell b r c)" unfolding cell_def by blast
  qed
next
  assume r: "\<forall>r < 9. \<forall>c < 9. P (cell b r c)"
  show "\<forall>r \<in> set b. \<forall>v \<in> set r. P v"
  proof (intro ballI)
    fix x v assume "x \<in> set b" "v \<in> set x"
    then obtain i where i: "i < length b" "b ! i = x" by (auto simp: in_set_conv_nth)
    from \<open>v \<in> set x\<close> obtain j where j: "j < length x" "x ! j = v" by (auto simp: in_set_conv_nth)
    from assms i j have "i < 9" "j < 9" by (auto simp: wf_board_def)
    with r i j show "P v" unfolding cell_def by blast
  qed
qed

lemma consistent_iff:
  "consistent b \<longleftrightarrow> wf_board b \<and> (\<forall>r < 9. \<forall>c < 9. 0 \<le> cell b r c \<and> cell b r c \<le> 9)
     \<and> cells_distinct b"
proof (cases "wf_board b")
  case False
  then show ?thesis by (simp add: consistent_def)
next
  case True
  have "(\<forall>k < 9. nodup (row_vals b k) \<and> nodup (col_vals b k)
             \<and> nodup (box_vals b (k div 3) (k mod 3))) \<longleftrightarrow> cells_distinct b"
    using units_nodup_imp_cells_distinct cells_distinct_imp_units_nodup by blast
  then show ?thesis
    unfolding consistent_def ball_upt9 cells_in_range_iff[OF True] using True by simp
qed

lemma perm19_iff_nodup:
  assumes "length xs = 9"
  shows "perm19 xs \<longleftrightarrow> nodup xs \<and> (\<forall>i < 9. 1 \<le> xs ! i \<and> xs ! i \<le> 9)"
proof
  assume p: "perm19 xs"
  then have d: "distinct xs" and s: "set xs = {1..9}" by (simp_all add: perm19_props)
  have "nodup xs" using d by (simp add: nodup_def)
  moreover have "1 \<le> xs ! i \<and> xs ! i \<le> 9" if "i < 9" for i
  proof -
    have "xs ! i \<in> set xs" using that assms by simp
    then show ?thesis unfolding s by simp
  qed
  ultimately show "nodup xs \<and> (\<forall>i < 9. 1 \<le> xs ! i \<and> xs ! i \<le> 9)" by blast
next
  assume h: "nodup xs \<and> (\<forall>i < 9. 1 \<le> xs ! i \<and> xs ! i \<le> 9)"
  have el: "1 \<le> v \<and> v \<le> 9" if "v \<in> set xs" for v
    using that h assms by (auto simp: in_set_conv_nth)
  then have "\<forall>v \<in> set xs. v \<noteq> 0" by force
  then have "filter (\<lambda>v. v \<noteq> 0) xs = xs" by (rule filter_True)
  with h have "distinct xs" by (simp add: nodup_def)
  moreover have "set xs \<subseteq> {1..9}" using el by auto
  ultimately show "perm19 xs" using assms by (intro perm19_intro)
qed

lemma solved_iff:
  "solved b \<longleftrightarrow> consistent b \<and> (\<forall>r < 9. \<forall>c < 9. cell b r c \<noteq> 0)"
proof
  assume s: "solved b"
  then have wf: "wf_board b" by (simp add: solved_def)
  from s have u: "perm19 (row_vals b k) \<and> perm19 (col_vals b k)
      \<and> perm19 (box_vals b (k div 3) (k mod 3))" if "k < 9" for k
    using that unfolding solved_def ball_upt9 by blast
  have rng: "1 \<le> cell b r c \<and> cell b r c \<le> 9" if "r < 9" "c < 9" for r c
  proof -
    have "perm19 (row_vals b r)" using u that by blast
    then have "1 \<le> row_vals b r ! c \<and> row_vals b r ! c \<le> 9"
      using that by (simp add: perm19_iff_nodup)
    then show ?thesis using that by (simp add: unit_nth)
  qed
  have nd: "nodup (row_vals b k) \<and> nodup (col_vals b k)
      \<and> nodup (box_vals b (k div 3) (k mod 3))" if "k < 9" for k
    using u[OF that] by (simp add: perm19_iff_nodup)
  then have "cells_distinct b" by (intro units_nodup_imp_cells_distinct) blast
  moreover have "\<forall>r < 9. \<forall>c < 9. 0 \<le> cell b r c \<and> cell b r c \<le> 9"
    using rng by force
  moreover have "\<forall>r < 9. \<forall>c < 9. cell b r c \<noteq> 0" using rng by force
  ultimately show "consistent b \<and> (\<forall>r < 9. \<forall>c < 9. cell b r c \<noteq> 0)"
    using wf by (simp add: consistent_iff)
next
  assume h: "consistent b \<and> (\<forall>r < 9. \<forall>c < 9. cell b r c \<noteq> 0)"
  then have wf: "wf_board b" and cd: "cells_distinct b"
    by (simp_all add: consistent_iff)
  have rng: "1 \<le> cell b r c \<and> cell b r c \<le> 9" if "r < 9" "c < 9" for r c
  proof -
    from h that have "0 \<le> cell b r c \<and> cell b r c \<le> 9" "cell b r c \<noteq> 0"
      by (simp_all add: consistent_iff)
    then show ?thesis by linarith
  qed
  have "perm19 (row_vals b k) \<and> perm19 (col_vals b k)
      \<and> perm19 (box_vals b (k div 3) (k mod 3))" if k: "k < 9" for k
  proof -
    have nd: "nodup (row_vals b k)" "nodup (col_vals b k)" "nodup (box_vals b (k div 3) (k mod 3))"
      using cells_distinct_imp_units_nodup[OF cd k] by simp_all
    have "\<forall>i < 9. 1 \<le> row_vals b k ! i \<and> row_vals b k ! i \<le> 9"
      using rng k by (simp add: unit_nth)
    moreover have "\<forall>i < 9. 1 \<le> col_vals b k ! i \<and> col_vals b k ! i \<le> 9"
      using rng k by (simp add: unit_nth)
    moreover have "\<forall>i < 9. 1 \<le> box_vals b (k div 3) (k mod 3) ! i
        \<and> box_vals b (k div 3) (k mod 3) ! i \<le> 9"
    proof (intro allI impI)
      fix i :: nat assume i: "i < 9"
      have "3 * (k div 3) + i div 3 < 9" "3 * (k mod 3) + i mod 3 < 9"
        using box_cell_bounds(1,2)[OF i i k] by simp_all
      then show "1 \<le> box_vals b (k div 3) (k mod 3) ! i
        \<and> box_vals b (k div 3) (k mod 3) ! i \<le> 9"
        using rng i by (simp add: unit_nth)
    qed
    ultimately show ?thesis using nd by (simp add: perm19_iff_nodup)
  qed
  then show "solved b" unfolding solved_def ball_upt9 using wf by blast
qed

lemma same_unit_sym: "same_unit r c r' c' \<Longrightarrow> same_unit r' c' r c"
  by (auto simp: same_unit_def)

lemma consistent_upd:
  assumes "consistent b" "r < 9" "c < 9" "1 \<le> v" "v \<le> 9" "\<not> occurs_in_units b r c v"
  shows "consistent (upd b r c v)"
proof -
  from assms(1) have wf: "wf_board b" and cd: "cells_distinct b"
    and rng: "\<And>r c. r < 9 \<Longrightarrow> c < 9 \<Longrightarrow> 0 \<le> cell b r c \<and> cell b r c \<le> 9"
    by (simp_all add: consistent_iff)
  note cu = cell_upd[OF wf assms(2,3)]
  have no: "cell b r' c' \<noteq> v" if "r' < 9" "c' < 9" "same_unit r c r' c'" for r' c'
    using assms(6) that unfolding occurs_in_units_iff by blast
  have "cells_distinct (upd b r c v)"
    unfolding cells_distinct_def
  proof (intro allI impI)
    fix p q p' q' :: nat
    assume b: "p < 9" "q < 9" "p' < 9" "q' < 9"
      and h: "same_unit p q p' q' \<and> cell (upd b r c v) p q = cell (upd b r c v) p' q'
                \<and> cell (upd b r c v) p q \<noteq> 0"
    show "p = p' \<and> q = q'"
    proof (cases "p = r \<and> q = c")
      case True
      show ?thesis
      proof (cases "p' = r \<and> q' = c")
        case True
        with \<open>p = r \<and> q = c\<close> show ?thesis by simp
      next
        case False
        with True h have "cell b p' q' = v" "same_unit r c p' q'" by (simp_all add: cu)
        with no[OF b(3,4)] show ?thesis by simp
      qed
    next
      case False
      show ?thesis
      proof (cases "p' = r \<and> q' = c")
        case True
        with False h have "cell b p q = v" "same_unit r c p q"
          by (auto simp: cu dest: same_unit_sym)
        with no[OF b(1,2)] show ?thesis by simp
      next
        case F2: False
        with False h have "same_unit p q p' q' \<and> cell b p q = cell b p' q' \<and> cell b p q \<noteq> 0"
          by (auto simp: cu)
        with cd b show ?thesis unfolding cells_distinct_def by blast
      qed
    qed
  qed
  moreover have "\<forall>p < 9. \<forall>q < 9. 0 \<le> cell (upd b r c v) p q \<and> cell (upd b r c v) p q \<le> 9"
    using rng assms(4,5) by (simp add: cu)
  ultimately show ?thesis using wf_upd[OF wf] by (simp add: consistent_iff)
qed

lemma completion_iff:
  "completion b s \<longleftrightarrow> wf_board s \<and> (\<forall>r < 9. \<forall>c < 9. cell b r c \<noteq> 0 \<longrightarrow> cell s r c = cell b r c)"
  unfolding completion_def ball_upt9 ..

lemma cells_distinctD:
  assumes "cells_distinct b" "r < 9" "c < 9" "r' < 9" "c' < 9" "same_unit r c r' c'"
    "cell b r c = cell b r' c'" "cell b r c \<noteq> 0"
  shows "r = r' \<and> c = c'"
  using assms(1)[unfolded cells_distinct_def, rule_format, OF assms(2,3,4,5)] assms(6,7,8)
  by simp

lemma solution_avoids_conflict:
  assumes "solved s" "completion b s" "r < 9" "c < 9" "cell b r c = 0" "v \<noteq> 0"
    "occurs_in_units b r c v"
  shows "cell s r c \<noteq> v"
proof
  assume e: "cell s r c = v"
  from assms(7) obtain r' c' where h: "r' < 9" "c' < 9" "same_unit r c r' c'" "cell b r' c' = v"
    unfolding occurs_in_units_iff by blast
  from h(4) assms(5,6) have ne: "\<not> (r = r' \<and> c = c')" by auto
  from h assms(2,6) have e': "cell s r' c' = v" unfolding completion_iff by simp
  from assms(1) have cd: "cells_distinct s" by (simp add: solved_iff consistent_iff)
  have "r = r' \<and> c = c'"
    using cd assms(3,4) h(1,2,3) by (rule cells_distinctD) (simp_all add: e e' assms(6))
  with ne show False by simp
qed

lemma completion_upd:
  assumes "wf_board b" "r < 9" "c < 9" "completion b s" "cell s r c = v"
  shows "completion (upd b r c v) s"
  using assms unfolding completion_iff by (simp add: cell_upd)

lemma completion_of_upd:
  assumes "wf_board b" "r < 9" "c < 9" "cell b r c = 0" "completion (upd b r c v) s"
  shows "completion b s"
  unfolding completion_iff
proof (intro conjI allI impI)
  show "wf_board s" using assms(5) by (simp add: completion_iff)
  fix p q :: nat assume pq: "p < 9" "q < 9" "cell b p q \<noteq> 0"
  with assms(4) have ne: "\<not> (p = r \<and> q = c)" by auto
  then have "cell (upd b r c v) p q = cell b p q" by (auto simp: cell_upd[OF assms(1,2,3)])
  with assms(5) pq show "cell s p q = cell b p q" unfolding completion_iff by simp
qed

lemma completion_refl: "wf_board b \<Longrightarrow> completion b b"
  by (simp add: completion_iff)

lemma solved_range:
  assumes "solved s" "r < 9" "c < 9"
  shows "1 \<le> cell s r c \<and> cell s r c \<le> 9"
proof -
  from assms have "0 \<le> cell s r c \<and> cell s r c \<le> 9" "cell s r c \<noteq> 0"
    by (simp_all add: solved_iff consistent_iff)
  then show ?thesis by linarith
qed

section \<open>The search of the filler is sound and complete\<close>

lemma consistent_wf: "consistent b \<Longrightarrow> wf_board b"
  by (simp add: consistent_def)

lemma board_get_cell:
  assumes "wf_board b" "0 \<le> i" "i \<le> 8" "0 \<le> j" "j \<le> 8"
  shows "board_get b i j = Inr (cell b (nat i) (nat j))"
proof -
  have "board_get b (int (nat i)) (int (nat j)) = Inr (cell b (nat i) (nat j))"
    using assms by (intro board_get_wf) simp_all
  then show ?thesis using assms by simp
qed

lemma board_set_cell:
  assumes "wf_board b" "0 \<le> i" "i \<le> 8" "0 \<le> j" "j \<le> 8"
  shows "board_set b i j v = Inr (upd b (nat i) (nat j) v)"
proof -
  have "board_set b (int (nat i)) (int (nat j)) v = Inr (upd b (nat i) (nat j) v)"
    using assms by (intro board_set_wf) simp_all
  then show ?thesis using assms by simp
qed

lemma is_num_valid_cell:
  assumes "wf_board b" "0 \<le> i" "i \<le> 8" "0 \<le> j" "j \<le> 8"
  shows "is_num_valid b i j num = Inr (\<not> occurs_in_units b (nat i) (nat j) num)"
proof -
  have "is_num_valid b (int (nat i)) (int (nat j)) num
      = Inr (\<not> occurs_in_units b (nat i) (nat j) num)"
    using assms by (intro is_num_valid_wf) simp_all
  then show ?thesis using assms by simp
qed

lemma filled_all:
  assumes "filled_before b 8 9" "r < 9" "c < 9"
  shows "cell b r c \<noteq> 0"
proof -
  have "int r < 8 \<or> (int r = 8 \<and> int c < 9)" using assms(2,3) by linarith
  with assms show ?thesis unfolding filled_before_def by blast
qed

lemma filled_next_row: "filled_before b i 9 \<Longrightarrow> filled_before b (i + 1) 0"
  unfolding filled_before_def
proof (intro allI impI)
  fix r c :: nat
  assume h: "\<forall>r < 9. \<forall>c < 9. int r < i \<or> int r = i \<and> int c < 9 \<longrightarrow> cell b r c \<noteq> 0"
    and r: "r < 9" and c: "c < 9" and p: "int r < i + 1 \<or> int r = i + 1 \<and> int c < 0"
  from p c have "int r < i \<or> int r = i \<and> int c < 9" by linarith
  with h r c show "cell b r c \<noteq> 0" by blast
qed

lemma filled_step:
  assumes "filled_before b i j" "cell b (nat i) (nat j) \<noteq> 0" "0 \<le> i" "0 \<le> j"
  shows "filled_before b i (j + 1)"
  unfolding filled_before_def
proof (intro allI impI)
  fix r c :: nat
  assume r: "r < 9" and c: "c < 9" and p: "int r < i \<or> int r = i \<and> int c < j + 1"
  show "cell b r c \<noteq> 0"
  proof (cases "int r = i \<and> int c = j")
    case True
    then have "nat i = r" "nat j = c" by auto
    with assms(2) show ?thesis by simp
  next
    case False
    with p have "int r < i \<or> int r = i \<and> int c < j" by linarith
    with assms(1) r c show ?thesis unfolding filled_before_def by blast
  qed
qed

lemma filled_upd:
  assumes "wf_board b" "filled_before b i j" "0 \<le> i" "i \<le> 8" "0 \<le> j" "j \<le> 8" "v \<noteq> 0"
  shows "filled_before (upd b (nat i) (nat j) v) i (j + 1)"
  unfolding filled_before_def
proof (intro allI impI)
  fix r c :: nat
  assume r: "r < 9" and c: "c < 9" and p: "int r < i \<or> int r = i \<and> int c < j + 1"
  have ij: "nat i < 9" "nat j < 9" using assms by simp_all
  show "cell (upd b (nat i) (nat j) v) r c \<noteq> 0"
  proof (cases "r = nat i \<and> c = nat j")
    case True
    then show ?thesis using assms(7) by (simp add: cell_upd[OF assms(1) ij])
  next
    case False
    with assms(3,5) have "\<not> (int r = i \<and> int c = j)" by auto
    with p have "int r < i \<or> int r = i \<and> int c < j" by linarith
    with assms(2) r c have "cell b r c \<noteq> 0" unfolding filled_before_def by blast
    with False show ?thesis by (auto simp: cell_upd[OF assms(1) ij])
  qed
qed

lemma row_major_le_iff:
  "row_major_le b s \<longleftrightarrow>
     (\<forall>r < 9. \<forall>c < 9. cell b r c = cell s r c) \<or>
     (\<exists>r < 9. \<exists>c < 9. cell b r c < cell s r c \<and>
        (\<forall>r' < 9. \<forall>c' < 9. r' < r \<or> (r' = r \<and> c' < c) \<longrightarrow> cell b r' c' = cell s r' c'))"
  unfolding row_major_le_def by (simp only: bex_upt9 ball_upt9)

lemma row_major_le_same:
  assumes "\<forall>r < 9. \<forall>c < 9. cell b r c = cell s r c"
  shows "row_major_le b s"
  using assms unfolding row_major_le_iff by blast

lemma row_major_le_first:
  assumes "r < 9" "c < 9" "cell b r c < cell s r c"
    "\<forall>r' < 9. \<forall>c' < 9. r' < r \<or> (r' = r \<and> c' < c) \<longrightarrow> cell b r' c' = cell s r' c'"
  shows "row_major_le b s"
  unfolding row_major_le_iff using assms by blast

lemma completions_agree_before:
  assumes "filled_before b i j" "completion b s" "completion b t" "0 \<le> i" "0 \<le> j"
    "r' < 9" "c' < 9" "r' < nat i \<or> (r' = nat i \<and> c' < nat j)"
  shows "cell s r' c' = cell t r' c'"
proof -
  from assms(4,5,8) have "int r' < i \<or> (int r' = i \<and> int c' < j)" by linarith
  with assms(1,6,7) have "cell b r' c' \<noteq> 0" unfolding filled_before_def by blast
  with assms(2,3,6,7) show ?thesis unfolding completion_iff by simp
qed

lemma search_correct:
  "consistent b \<Longrightarrow> 0 \<le> i \<Longrightarrow> i \<le> 8 \<Longrightarrow> 0 \<le> j \<Longrightarrow> j \<le> 9 \<Longrightarrow> filled_before b i j \<Longrightarrow>
     found b (generate_board i j b) (\<lambda>s. False)"
  "consistent b \<Longrightarrow> 0 \<le> i \<Longrightarrow> i \<le> 8 \<Longrightarrow> 0 \<le> j \<Longrightarrow> j \<le> 8 \<Longrightarrow> filled_before b i j \<Longrightarrow>
     cell b (nat i) (nat j) = 0 \<Longrightarrow> set ns \<subseteq> {1..9} \<Longrightarrow> sorted ns \<Longrightarrow>
     (\<forall>s. solved s \<and> completion b s \<longrightarrow> cell s (nat i) (nat j) \<in> set ns) \<Longrightarrow>
     found b (try_nums i j ns b) (\<lambda>s. False)"
proof (induction i j b and i j ns b rule: generate_board_try_nums.induct)
  case (1 i j b)
  note c = \<open>consistent b\<close> and fb = \<open>filled_before b i j\<close>
  have wf: "wf_board b" using c by (rule consistent_wf)
  show ?case
  proof (cases "i = 8 \<and> j = 9")
    case True
    have nz: "\<forall>r < 9. \<forall>c < 9. cell b r c \<noteq> 0" using fb True filled_all by blast
    with c have "solved b" by (simp add: solved_iff)
    moreover have "completion b b" using wf by (rule completion_refl)
    moreover have "row_major_le b s" if "completion b s" for s
      using that nz by (intro row_major_le_same) (simp add: completion_iff)
    ultimately show ?thesis
      using True unfolding found_def by (intro exI[of _ True] exI[of _ b]) simp
  next
    case False
    define i' where "i' = (if j = 9 then i + 1 else i)"
    define j' where "j' = (if j = 9 then 0 else j)"
    have bi: "0 \<le> i'" "i' \<le> 8" and bj: "0 \<le> j'" "j' \<le> 8"
      using False "1.prems" by (auto simp: i'_def j'_def)
    have fb': "filled_before b i' j'"
      using fb filled_next_row[of b i] by (auto simp: i'_def j'_def)
    have get: "board_get b i' j' = Inr (cell b (nat i') (nat j'))"
      using wf bi bj by (rule board_get_cell)
    show ?thesis
    proof (cases "cell b (nat i') (nat j') = 0")
      case nz: False
      have eq: "generate_board i j b = generate_board i' (j' + 1) b"
        using False get nz by (auto simp: i'_def j'_def Let_def)
      have "filled_before b i' (j' + 1)" using fb' nz bi(1) bj(1) by (rule filled_step)
      then have "found b (generate_board i' (j' + 1) b) (\<lambda>s. False)"
        using "1.IH"(1)[OF False i'_def j'_def get nz c bi] bj by simp
      then show ?thesis unfolding eq .
    next
      case z: True
      have eq: "generate_board i j b = try_nums i' j' [1..9] b"
        using False get z by (auto simp: i'_def j'_def Let_def)
      have nn: "\<not> cell b (nat i') (nat j') \<noteq> 0" using z by simp
      have sub: "set [1..9::int] \<subseteq> {1..9}" by simp
      have srt: "sorted [1..9::int]" by simp
      have all: "\<forall>s. solved s \<and> completion b s \<longrightarrow> cell s (nat i') (nat j') \<in> set [1..9]"
        using solved_range[of _ "nat i'" "nat j'"] bi bj by auto
      have "found b (try_nums i' j' [1..9] b) (\<lambda>s. False)"
        using "1.IH"(2)[OF False i'_def j'_def get nn c bi bj fb' z sub srt all] .
      then show ?thesis unfolding eq .
    qed
  qed
next
  case (2 i j b)
  then have "\<forall>s. solved s \<and> completion b s \<longrightarrow> False" by simp
  then show ?case unfolding found_def by (intro exI[of _ False] exI[of _ b]) simp
next
  case (3 i j num nums b)
  note c = \<open>consistent b\<close> and fb = \<open>filled_before b i j\<close>
    and z = \<open>cell b (nat i) (nat j) = 0\<close>
    and all = \<open>\<forall>s. solved s \<and> completion b s \<longrightarrow> cell s (nat i) (nat j) \<in> set (num # nums)\<close>
  have bi: "0 \<le> i" "i \<le> 8" and bj: "0 \<le> j" "j \<le> 8" using "3.prems" by simp_all
  have num: "1 \<le> num" "num \<le> 9" and nums: "set nums \<subseteq> {1..9}" using "3.prems" by simp_all
  have srt: "sorted nums" and least: "\<forall>v \<in> set nums. num \<le> v" using "3.prems" by simp_all
  have wf: "wf_board b" using c by (rule consistent_wf)
  have rc: "nat i < 9" "nat j < 9" using bi bj by simp_all
  have valid: "is_num_valid b i j num = Inr (\<not> occurs_in_units b (nat i) (nat j) num)"
    using wf bi bj by (rule is_num_valid_cell)
  have "board_get b i j = Inr 0" using board_get_cell[OF wf bi bj] z by simp
  then have set0: "board_set b i j 0 = Inr b" by (rule board_set_same)
  show ?case
  proof (cases "occurs_in_units b (nat i) (nat j) num")
    case True
    have eq: "try_nums i j (num # nums) b = try_nums i j nums b"
      using valid True set0 by simp
    have "cell s (nat i) (nat j) \<noteq> num" if "solved s" "completion b s" for s
      using that rc z _ True by (rule solution_avoids_conflict) (use num in simp)
    with all have all': "\<forall>s. solved s \<and> completion b s \<longrightarrow> cell s (nat i) (nat j) \<in> set nums"
      by auto
    have "found b (try_nums i j nums b) (\<lambda>s. False)"
      using "3.IH"(3)[OF valid _ set0 c bi bj fb z nums srt all'] True by simp
    then show ?thesis unfolding eq .
  next
    case False
    define b1 where "b1 = upd b (nat i) (nat j) num"
    have set1: "board_set b i j num = Inr b1"
      unfolding b1_def using wf bi bj by (rule board_set_cell)
    have c1: "consistent b1"
      unfolding b1_def using c rc num False by (rule consistent_upd)
    have fb1: "filled_before b1 i (j + 1)"
      unfolding b1_def using wf fb bi bj by (rule filled_upd) (use num in simp)
    have v': "(\<not> occurs_in_units b (nat i) (nat j) num) = True" using False by simp
    have f1: "found b1 (generate_board i (j + 1) b1) (\<lambda>s. False)"
      using "3.IH"(1)[OF valid v' set1 c1 bi] bj fb1 by simp
    then obtain ok2 b2 where g: "generate_board i (j + 1) b1 = (Inr ok2, b2)"
      and post: "if ok2 then solved b2 \<and> completion b1 b2 \<and>
                      (\<forall>s. solved s \<and> completion b1 s \<longrightarrow> row_major_le b2 s)
                 else b2 = b1 \<and> (\<forall>s. solved s \<and> completion b1 s \<longrightarrow> False)"
      unfolding found_def by blast
    show ?thesis
    proof (cases ok2)
      case True
      have run: "try_nums i j (num # nums) b = (Inr True, b2)"
        using valid False set1 g True by simp
      have s2: "solved b2" and c12: "completion b1 b2"
        and m2: "\<And>s. solved s \<Longrightarrow> completion b1 s \<Longrightarrow> row_major_le b2 s"
        using post True by simp_all
      have c2: "completion b b2"
        using wf rc z c12 unfolding b1_def by (intro completion_of_upd[of b "nat i" "nat j" num b2]) simp_all
      have v2: "cell b2 (nat i) (nat j) = num"
      proof -
        have "cell b1 (nat i) (nat j) = num" unfolding b1_def by (simp add: cell_upd[OF wf rc])
        with c12 rc num show ?thesis unfolding completion_iff by simp
      qed
      have least2: "row_major_le b2 s" if s: "solved s" "completion b s" for s
      proof (cases "cell s (nat i) (nat j) = num")
        case True
        with wf rc s(2) have "completion b1 s" unfolding b1_def by (intro completion_upd)
        with s(1) show ?thesis by (rule m2)
      next
        case ne: False
        from all s have "cell s (nat i) (nat j) \<in> set (num # nums)" by blast
        with ne least have "num < cell s (nat i) (nat j)" by auto
        then have lt: "cell b2 (nat i) (nat j) < cell s (nat i) (nat j)" using v2 by simp
        have "\<forall>r' < 9. \<forall>c' < 9. r' < nat i \<or> (r' = nat i \<and> c' < nat j)
            \<longrightarrow> cell b2 r' c' = cell s r' c'"
          using completions_agree_before[OF fb c2 s(2) bi(1) bj(1)] by blast
        with rc lt show ?thesis by (rule row_major_le_first)
      qed
      show ?thesis
        unfolding found_def run using s2 c2 least2
        by (intro exI[of _ True] exI[of _ b2]) simp
    next
      case ok2: False
      with post have b2: "b2 = b1" and none: "\<And>s. solved s \<Longrightarrow> \<not> completion b1 s" by auto
      have set3: "board_set b2 i j 0 = Inr b"
        unfolding b2 using board_set_again[OF set1, of 0] set0 by simp
      have eq: "try_nums i j (num # nums) b = try_nums i j nums b"
        using valid False set1 g ok2 set3 by simp
      have nok: "ok2 = False" using ok2 by simp
      have "cell s (nat i) (nat j) \<noteq> num" if s: "solved s" "completion b s" for s
      proof
        assume "cell s (nat i) (nat j) = num"
        with wf rc s(2) have "completion b1 s" unfolding b1_def by (intro completion_upd)
        with none[OF s(1)] show False by simp
      qed
      with all have all': "\<forall>s. solved s \<and> completion b s \<longrightarrow> cell s (nat i) (nat j) \<in> set nums"
        by auto
      have "found b (try_nums i j nums b) (\<lambda>s. False)"
        using "3.IH"(2)[OF valid v' set1 g[symmetric] refl nok set3 c bi bj fb z nums srt all'] .
      then show ?thesis unfolding eq .
    qed
  qed
qed


section \<open>The seeder fills the diagonal boxes\<close>

lemma pick_mem: "finite nums \<Longrightarrow> nums \<noteq> {} \<Longrightarrow> pick src k nums \<in> nums"
proof -
  assume f: "finite nums" and ne: "nums \<noteq> {}"
  have "card nums > 0" using f ne by (simp add: card_gt_0_iff)
  then have "src k mod card nums < length (sorted_list_of_set nums)" by simp
  then have "pick src k nums \<in> set (sorted_list_of_set nums)"
    unfolding pick_def by (rule nth_mem)
  then show ?thesis using f by simp
qed

lemma choice_pick:
  "finite nums \<Longrightarrow> nums \<noteq> {} \<Longrightarrow>
     choice src k (sorted_list_of_set nums) = Inr (pick src k nums, Suc k)"
  by (simp add: choice_def pick_def)

lemma fill_row_cell:
  assumes "finite nums" "nums \<noteq> {}" "wf_board b" "0 \<le> x" "x \<le> 8" "0 \<le> y" "y \<le> 8"
  shows "fill_row src x (y # ys) (nums, b, k)
           = fill_row src x ys (nums - {pick src k nums}, upd b (nat x) (nat y) (pick src k nums), Suc k)"
  using assms by (simp add: choice_pick board_set_cell pick_mem)

lemma fill_row_post:
  assumes "finite nums" "length ys \<le> card nums" "wf_board b" "x < 9"
    "\<forall>y \<in> set ys. 0 \<le> y \<and> y \<le> 8" "distinct ys"
  shows "\<exists>nums' b'. fill_row src (int x) ys (nums, b, k) = (Inr (), nums', b', k + length ys)
           \<and> row_post nums b x ys nums' b'"
  using assms
proof (induction ys arbitrary: nums b k)
  case Nil
  then show ?case by (simp add: row_post_def)
next
  case (Cons y ys)
  let ?p = "pick src k nums"
  let ?b1 = "upd b x (nat y) ?p"
  let ?n1 = "nums - {?p}"
  have ne: "nums \<noteq> {}" using Cons.prems(2) by auto
  have p: "?p \<in> nums" using Cons.prems(1) ne by (rule pick_mem)
  have y: "0 \<le> y" "y \<le> 8" and ys: "\<forall>y \<in> set ys. 0 \<le> y \<and> y \<le> 8"
    and d: "distinct ys" "y \<notin> set ys"
    using Cons.prems by simp_all
  have step: "fill_row src (int x) (y # ys) (nums, b, k) = fill_row src (int x) ys (?n1, ?b1, Suc k)"
    using fill_row_cell[OF Cons.prems(1) ne Cons.prems(3), of "int x" y src ys k] Cons.prems(4) y
    by simp
  have wf1: "wf_board ?b1" using Cons.prems(3) by (rule wf_upd)
  have c1: "card ?n1 = card nums - 1" using p Cons.prems(1) by simp
  then have len: "length ys \<le> card ?n1" using Cons.prems(2) by simp
  have fin1: "finite ?n1" using Cons.prems(1) by simp
  from Cons.IH[OF fin1 len wf1 Cons.prems(4) ys d(1), of "Suc k"]
  obtain nums' b' where run: "fill_row src (int x) ys (?n1, ?b1, Suc k) = (Inr (), nums', b', Suc k + length ys)"
    and post: "row_post ?n1 ?b1 x ys nums' b'" by blast
  have ny: "nat y < 9" using y by simp
  note cu = cell_upd[OF Cons.prems(3) Cons.prems(4) ny]
  have ynot: "\<not> (x = x \<and> int (nat y) \<in> set ys)" using d(2) y by simp
  have cy: "cell b' x (nat y) = ?p"
    using post ynot Cons.prems(4) ny unfolding row_post_def by (simp add: cu)
  have sub: "nums' \<subseteq> ?n1" using post by (simp add: row_post_def)
  have "row_post nums b x (y # ys) nums' b'"
    unfolding row_post_def
  proof (intro conjI)
    show "wf_board b'" using post by (simp add: row_post_def)
    show "nums' \<subseteq> nums" using sub by blast
    have "card nums' + length ys = card ?n1" using post by (simp add: row_post_def)
    moreover have "card nums > 0" using Cons.prems(1) ne by (simp add: card_gt_0_iff)
    ultimately show "card nums' + length (y # ys) = card nums" using c1 by simp
    show "\<forall>y' \<in> set (y # ys). cell b' x (nat y') \<in> nums - nums'"
    proof
      fix y' assume "y' \<in> set (y # ys)"
      then consider "y' = y" | "y' \<in> set ys" by auto
      then show "cell b' x (nat y') \<in> nums - nums'"
      proof cases
        case 1
        then show ?thesis using cy p sub by auto
      next
        case 2
        then have "cell b' x (nat y') \<in> ?n1 - nums'" using post by (simp add: row_post_def)
        then show ?thesis by blast
      qed
    qed
    have inj: "inj_on (\<lambda>y. cell b' x (nat y)) (set ys)" using post by (simp add: row_post_def)
    have "cell b' x (nat y) \<notin> (\<lambda>y. cell b' x (nat y)) ` set ys"
    proof
      assume "cell b' x (nat y) \<in> (\<lambda>y. cell b' x (nat y)) ` set ys"
      then obtain y' where "y' \<in> set ys" "cell b' x (nat y') = ?p" using cy by auto
      moreover from this post have "cell b' x (nat y') \<in> ?n1 - nums'" by (simp add: row_post_def)
      ultimately show False by simp
    qed
    with inj show "inj_on (\<lambda>y. cell b' x (nat y)) (set (y # ys))" by auto
    show "\<forall>r < 9. \<forall>c < 9. \<not> (r = x \<and> int c \<in> set (y # ys)) \<longrightarrow> cell b' r c = cell b r c"
    proof (intro allI impI)
      fix r c :: nat assume rc: "r < 9" "c < 9" and n: "\<not> (r = x \<and> int c \<in> set (y # ys))"
      then have "\<not> (r = x \<and> int c \<in> set ys)" and "\<not> (r = x \<and> c = nat y)"
        using y by auto
      then have "cell b' r c = cell ?b1 r c" "cell ?b1 r c = cell b r c"
        using post rc unfolding row_post_def by (auto simp: cu)
      then show "cell b' r c = cell b r c" by simp
    qed
  qed
  then show ?case using step run by simp
qed

lemma box_cols_props:
  assumes "m < 3"
  shows "distinct (box_cols m)" "\<forall>y \<in> set (box_cols m). 0 \<le> y \<and> y \<le> 8"
    "length (box_cols m) = 3"
    "\<And>c. int c \<in> set (box_cols m) \<longleftrightarrow> c div 3 = m"
  using assms by (auto simp: box_cols_def)

lemma box_vals_rows:
  "box_vals b m m =
     map (\<lambda>y. cell b (3 * m) (nat y)) (box_cols m) @
     map (\<lambda>y. cell b (3 * m + 1) (nat y)) (box_cols m) @
     map (\<lambda>y. cell b (3 * m + 2) (nat y)) (box_cols m)"
  by (simp add: box_vals_def box_cols_def upt_rec nat_add_distrib nat_mult_distrib)

lemma fill_rows_row:
  assumes "m < 3" "t < 3" "finite nums" "3 \<le> card nums" "wf_board b"
  shows "\<exists>nums' b'.
           fill_rows src (int (3 * m + t) # rest) (nums, b, k) = fill_rows src rest (nums', b', k + 3)
           \<and> row_post nums b (3 * m + t) (box_cols m) nums' b'"
proof -
  have ne: "nums \<noteq> {}" using assms(4) by auto
  have start: "int (3 * m + t) - int (3 * m + t) mod 3 = int (3 * m)"
    using assms(2) by (simp add: zmod_int[symmetric] flip: of_nat_diff)
  have cols: "[int (3 * m)..int (3 * m) + 2] = box_cols m"
    unfolding box_cols_def by (rule upto_three)
  have x: "3 * m + t < 9" using assms(1,2) by simp
  from fill_row_post[OF assms(3) _ assms(5) x box_cols_props(2)[OF assms(1)] box_cols_props(1)[OF assms(1)],
      of src k] assms(4) box_cols_props(3)[OF assms(1)]
  obtain nums' b' where run: "fill_row src (int (3 * m + t)) (box_cols m) (nums, b, k)
        = (Inr (), nums', b', k + 3)"
    and post: "row_post nums b (3 * m + t) (box_cols m) nums' b'" by auto
  have "fill_rows src (int (3 * m + t) # rest) (nums, b, k) = fill_rows src rest (nums', b', k + 3)"
    using ne run unfolding fill_rows.simps Let_def start cols by simp
  with post show ?thesis by blast
qed

lemma row_post_other_row:
  assumes "row_post nums b x ys nums' b'" "r < 9" "c < 9" "r \<noteq> x"
  shows "cell b' r c = cell b r c"
  using assms unfolding row_post_def by blast

lemma fill_rows_refill:
  "fill_rows src (x # rest) ({}, b, k) = fill_rows src (x # rest) ({1..9}, b, k)"
  by (simp add: Let_def)

lemma fill_rows_box:
  assumes "m < 3" "wf_board b"
  shows "\<exists>b'. fill_rows src (int (3 * m) # int (3 * m + 1) # int (3 * m + 2) # rest) ({}, b, k)
             = fill_rows src rest ({}, b', k + 9) \<and> box_post m b b'"
proof -
  let ?cols = "box_cols m"
  have cols: "distinct ?cols" "\<forall>y \<in> set ?cols. 0 \<le> y \<and> y \<le> 8"
    "\<And>c. int c \<in> set ?cols \<longleftrightarrow> c div 3 = m"
    using box_cols_props[OF assms(1)] by simp_all
  have coln: "nat y < 9" if "y \<in> set ?cols" for y using cols(2) that by auto
  have rows: "3 * m < 9" "3 * m + 1 < 9" "3 * m + 2 < 9" using assms(1) by simp_all
  have fin0: "finite {1..9::int}" and card0: "3 \<le> card {1..9::int}" by simp_all
  let ?x0 = "3 * m" and ?x1 = "3 * m + 1" and ?x2 = "3 * m + 2"
  from fill_rows_row[OF assms(1) _ fin0 card0 assms(2), of 0 src "int ?x1 # int ?x2 # rest" k]
  obtain N1 b1 where
    run1: "fill_rows src (int ?x0 # int ?x1 # int ?x2 # rest) ({1..9}, b, k)
             = fill_rows src (int ?x1 # int ?x2 # rest) (N1, b1, k + 3)"
    and p1: "row_post {1..9} b ?x0 ?cols N1 b1" by auto
  have wf1: "wf_board b1" and s1: "N1 \<subseteq> {1..9}" and c1: "card N1 = 6"
    using p1 by (simp_all add: row_post_def box_cols_def)
  have fin1: "finite N1" using s1 by (rule finite_subset) simp
  from fill_rows_row[OF assms(1) _ fin1 _ wf1, of 1 src "int ?x2 # rest" "k + 3"] c1
  obtain N2 b2 where
    run2: "fill_rows src (int ?x1 # int ?x2 # rest) (N1, b1, k + 3)
             = fill_rows src (int ?x2 # rest) (N2, b2, k + 3 + 3)"
    and p2: "row_post N1 b1 ?x1 ?cols N2 b2" by auto
  have wf2: "wf_board b2" and s2: "N2 \<subseteq> N1" and c2: "card N2 = 3"
    using p2 c1 by (simp_all add: row_post_def box_cols_def)
  have fin2: "finite N2" using s2 fin1 by (rule finite_subset)
  from fill_rows_row[OF assms(1) _ fin2 _ wf2, of 2 src rest "k + 3 + 3"] c2
  obtain N3 b3 where
    run3: "fill_rows src (int ?x2 # rest) (N2, b2, k + 3 + 3)
             = fill_rows src rest (N3, b3, k + 3 + 3 + 3)"
    and p3: "row_post N2 b2 ?x2 ?cols N3 b3" by auto
  have wf3: "wf_board b3" and s3: "N3 \<subseteq> N2" and c3: "card N3 = 0"
    using p3 c2 by (simp_all add: row_post_def box_cols_def)
  have "finite N3" using s3 fin2 by (rule finite_subset)
  with c3 have N3: "N3 = {}" by simp
  have run: "fill_rows src (int ?x0 # int ?x1 # int ?x2 # rest) ({}, b, k)
      = fill_rows src rest ({}, b3, k + 9)"
    unfolding fill_rows_refill run1 run2 run3 N3 by (simp add: add.commute)
  \<comment> \<open>the values of the three rows of the box, read in the final grid\<close>
  have v0: "cell b3 ?x0 (nat y) = cell b1 ?x0 (nat y)" if "y \<in> set ?cols" for y
    using row_post_other_row[OF p3 rows(1) coln[OF that]]
      row_post_other_row[OF p2 rows(1) coln[OF that]] by simp
  have v1: "cell b3 ?x1 (nat y) = cell b2 ?x1 (nat y)" if "y \<in> set ?cols" for y
    using row_post_other_row[OF p3 rows(2) coln[OF that]] by simp
  let ?A0 = "map (\<lambda>y. cell b3 ?x0 (nat y)) ?cols"
  let ?A1 = "map (\<lambda>y. cell b3 ?x1 (nat y)) ?cols"
  let ?A2 = "map (\<lambda>y. cell b3 ?x2 (nat y)) ?cols"
  have A0: "?A0 = map (\<lambda>y. cell b1 ?x0 (nat y)) ?cols" using v0 by (intro map_cong) simp_all
  have A1: "?A1 = map (\<lambda>y. cell b2 ?x1 (nat y)) ?cols" using v1 by (intro map_cong) simp_all
  have d0: "distinct ?A0" and m0: "set ?A0 \<subseteq> {1..9} - N1"
    unfolding A0 using p1 cols(1) by (auto simp: row_post_def distinct_map)
  have d1: "distinct ?A1" and m1: "set ?A1 \<subseteq> N1 - N2"
    unfolding A1 using p2 cols(1) by (auto simp: row_post_def distinct_map)
  have d2: "distinct ?A2" and m2: "set ?A2 \<subseteq> N2 - N3"
    using p3 cols(1) by (auto simp: row_post_def distinct_map)
  have i01: "set ?A0 \<inter> set ?A1 = {}" using m0 m1 by blast
  have i02: "set ?A0 \<inter> set ?A2 = {}" using m0 m2 s2 by blast
  have i12: "set ?A1 \<inter> set ?A2 = {}" using m1 m2 by blast
  have "distinct (?A0 @ ?A1 @ ?A2)"
    using d0 d1 d2 i01 i02 i12 by (simp only: distinct_append set_append Int_Un_distrib) simp
  moreover have "set (?A0 @ ?A1 @ ?A2) \<subseteq> {1..9}"
    using m0 m1 m2 s1 s2 by (simp only: set_append) blast
  moreover have "length (?A0 @ ?A1 @ ?A2) = 9" by (simp add: box_cols_def)
  ultimately have "perm19 (?A0 @ ?A1 @ ?A2)" by (intro perm19_intro)
  then have perm: "perm19 (box_vals b3 m m)" by (simp only: box_vals_rows)
  have same: "cell b3 r c = cell b r c" if rc: "r < 9" "c < 9" and n: "\<not> (r div 3 = m \<and> c div 3 = m)"
    for r c
  proof -
    have "\<not> (r = 3 * m + t \<and> int c \<in> set ?cols)" if "t < 3" for t
    proof
      assume h: "r = 3 * m + t \<and> int c \<in> set ?cols"
      with that have "r div 3 = m" by simp
      moreover from h have "c div 3 = m" by (simp only: cols(3))
      ultimately show False using n by simp
    qed
    from this[of 0] this[of 1] this[of 2]
    have "\<not> (r = ?x0 \<and> int c \<in> set ?cols)" "\<not> (r = ?x1 \<and> int c \<in> set ?cols)"
      "\<not> (r = ?x2 \<and> int c \<in> set ?cols)" by simp_all
    then have "cell b1 r c = cell b r c" "cell b2 r c = cell b1 r c" "cell b3 r c = cell b2 r c"
      using p1 p2 p3 rc unfolding row_post_def by blast+
    then show ?thesis by simp
  qed
  have "box_post m b b3" unfolding box_post_def using wf3 perm same by blast
  with run show ?thesis by blast
qed

lemma box_vals_cong:
  assumes "m < 3"
    "\<forall>r < 9. \<forall>c < 9. r div 3 = m \<and> c div 3 = m \<longrightarrow> cell b' r c = cell b r c"
  shows "box_vals b' m m = box_vals b m m"
  unfolding box_vals_def
proof (rule map_cong[OF refl])
  fix k :: nat assume "k \<in> set [0..<9]"
  then have k: "k < 9" by simp
  then have d: "k div 3 < 3" and md: "k mod 3 < 3" by simp_all
  have "3 * m + k div 3 < 9" "3 * m + k mod 3 < 9" using assms(1) d md by linarith+
  moreover have "(3 * m + k div 3) div 3 = m" "(3 * m + k mod 3) div 3 = m" using d by simp_all
  ultimately show "cell b' (3 * m + k div 3) (3 * m + k mod 3)
      = cell b (3 * m + k div 3) (3 * m + k mod 3)"
    using assms(2) by blast
qed

lemma box_post_keeps:
  assumes "box_post m b b'" "n < 3" "n \<noteq> m"
  shows "box_vals b' n n = box_vals b n n"
  using assms(2)
proof (rule box_vals_cong)
  show "\<forall>r < 9. \<forall>c < 9. r div 3 = n \<and> c div 3 = n \<longrightarrow> cell b' r c = cell b r c"
    using assms(1,3) unfolding box_post_def by blast
qed

lemma box_post_off_diagonal:
  assumes "box_post m b b'" "r < 9" "c < 9" "r div 3 \<noteq> c div 3"
  shows "cell b' r c = cell b r c"
  using assms unfolding box_post_def by metis

lemma rows_0_8:
  "[0..8] = [int (3 * 0), int (3 * 0 + 1), int (3 * 0 + 2),
             int (3 * 1), int (3 * 1 + 1), int (3 * 1 + 2),
             int (3 * 2), int (3 * 2 + 1), int (3 * 2 + 2)]"
  by (simp add: upto_rec1)

lemma generate_diagonals_post:
  assumes "wf_board b"
  shows "\<exists>b'. generate_diagonals src (b, k) = (Inr (), b', k + 27) \<and> wf_board b' \<and>
           (\<forall>m < 3. perm19 (box_vals b' m m)) \<and>
           (\<forall>r < 9. \<forall>c < 9. r div 3 \<noteq> c div 3 \<longrightarrow> cell b' r c = cell b r c)"
proof -
  have three: "(0::nat) < 3" "(1::nat) < 3" "(2::nat) < 3" by simp_all
  let ?rest2 = "[int (3 * 2), int (3 * 2 + 1), int (3 * 2 + 2)]"
  let ?rest1 = "int (3 * 1) # int (3 * 1 + 1) # int (3 * 1 + 2) # ?rest2"
  from fill_rows_box[OF three(1) assms, of src ?rest1 k]
  obtain b1 where r1: "fill_rows src (int (3 * 0) # int (3 * 0 + 1) # int (3 * 0 + 2) # ?rest1) ({}, b, k)
         = fill_rows src ?rest1 ({}, b1, k + 9)" and p1: "box_post 0 b b1"
    by blast
  have wf1: "wf_board b1" using p1 by (simp add: box_post_def)
  from fill_rows_box[OF three(2) wf1, of src ?rest2 "k + 9"]
  obtain b2 where r2: "fill_rows src ?rest1 ({}, b1, k + 9) = fill_rows src ?rest2 ({}, b2, k + 9 + 9)"
    and p2: "box_post 1 b1 b2"
    by blast
  have wf2: "wf_board b2" using p2 by (simp add: box_post_def)
  from fill_rows_box[OF three(3) wf2, of src "[]" "k + 9 + 9"]
  obtain b3 where r3: "fill_rows src ?rest2 ({}, b2, k + 9 + 9) = fill_rows src [] ({}, b3, k + 9 + 9 + 9)"
    and p3: "box_post 2 b2 b3"
    by blast
  have wf3: "wf_board b3" using p3 by (simp add: box_post_def)
  have "fill_rows src [0..8] ({}, b, k) = (Inr (), {}, b3, k + 27)"
    unfolding rows_0_8 r1 r2 r3 by simp
  then have run: "generate_diagonals src (b, k) = (Inr (), b3, k + 27)"
    by (simp add: generate_diagonals_def)
  have q2: "perm19 (box_vals b3 2 2)" using p3 by (simp add: box_post_def)
  have "perm19 (box_vals b2 1 1)" using p2 by (simp add: box_post_def)
  then have q1: "perm19 (box_vals b3 1 1)" using box_post_keeps[OF p3 three(2)] by simp
  have "perm19 (box_vals b1 0 0)" using p1 by (simp add: box_post_def)
  then have "perm19 (box_vals b2 0 0)" using box_post_keeps[OF p2 three(1)] by simp
  then have q0: "perm19 (box_vals b3 0 0)" using box_post_keeps[OF p3 three(1)] by simp
  have perms: "\<forall>m < 3. perm19 (box_vals b3 m m)"
  proof (intro allI impI)
    fix m :: nat assume "m < 3"
    then consider "m = 0" | "m = 1" | "m = 2" by linarith
    then show "perm19 (box_vals b3 m m)" using q0 q1 q2 by cases simp_all
  qed
  have off: "cell b3 r c = cell b r c" if "r < 9" "c < 9" "r div 3 \<noteq> c div 3" for r c
    using box_post_off_diagonal[OF p1 that] box_post_off_diagonal[OF p2 that]
      box_post_off_diagonal[OF p3 that] by simp
  show ?thesis using run wf3 perms off by blast
qed

section \<open>The seeder and the filler: claims\<close>

lemma wf_empty_board: "wf_board empty_board"
  by (simp add: wf_board_def empty_board_def)

lemma cell_empty_board: "r < 9 \<Longrightarrow> c < 9 \<Longrightarrow> cell empty_board r c = 0"
  by (simp add: cell_def empty_board_def)

text \<open>
  C7: from the all-zero grid and for every random source, the seeder raises nothing, makes
  27 draws, fills each of the three diagonal boxes with a permutation of 1 to 9, and
  leaves every cell outside the diagonal boxes zero.
\<close>

theorem generate_diagonals_fills_diagonal_boxes:
  "\<exists>b'. generate_diagonals src (empty_board, k) = (Inr (), b', k + 27) \<and> wf_board b' \<and>
     (\<forall>m < 3. perm19 (box_vals b' m m)) \<and>
     (\<forall>r < 9. \<forall>c < 9. r div 3 \<noteq> c div 3 \<longrightarrow> cell b' r c = 0)"
proof -
  from generate_diagonals_post[OF wf_empty_board, of src k]
  obtain b' where h: "generate_diagonals src (empty_board, k) = (Inr (), b', k + 27)"
    "wf_board b'" "\<forall>m < 3. perm19 (box_vals b' m m)"
    "\<forall>r < 9. \<forall>c < 9. r div 3 \<noteq> c div 3 \<longrightarrow> cell b' r c = cell empty_board r c"
    by blast
  from h(4) have "\<forall>r < 9. \<forall>c < 9. r div 3 \<noteq> c div 3 \<longrightarrow> cell b' r c = 0"
    by (simp add: cell_empty_board)
  with h(1,2,3) show ?thesis by blast
qed

theorem generate_diagonals_fills_diagonal_boxes_witness:
  "generate_diagonals (\<lambda>n. 0) (empty_board, 0) = (Inr (), seed_grid, 27) \<and>
   perm19 (box_vals seed_grid 0 0) \<and> perm19 (box_vals seed_grid 1 1) \<and>
   perm19 (box_vals seed_grid 2 2) \<and> cell seed_grid 0 3 = 0 \<and> cell seed_grid 8 5 = 0"
proof -
  have ev: "generate_diagonals (\<lambda>n. 0) (empty_board, 0) = (Inr (), seed_grid, 27)"
    by code_simp
  from generate_diagonals_fills_diagonal_boxes[of "\<lambda>n. 0" 0] ev
  have "(\<forall>m < 3. perm19 (box_vals seed_grid m m)) \<and>
     (\<forall>r < 9. \<forall>c < 9. r div 3 \<noteq> c div 3 \<longrightarrow> cell seed_grid r c = 0)" by simp
  then have "perm19 (box_vals seed_grid 0 0) \<and> perm19 (box_vals seed_grid 1 1) \<and>
   perm19 (box_vals seed_grid 2 2) \<and> cell seed_grid 0 3 = 0 \<and> cell seed_grid 8 5 = 0"
    by simp
  with ev show ?thesis by simp
qed

text \<open>
  C5: the filler is a depth-first search in row-major order. Past the last cell (row 8,
  column 9) it reports success without touching the grid; a non-zero cell is skipped;
  an empty cell is tried with the candidates 1 to 9 in ascending order, the first
  success is returned and a failed candidate is undone. Started at the first cell of a
  consistent grid it raises nothing and returns True if and only if the grid has a
  completion that is a solved grid. On True the grid it leaves is the least such
  completion in the row-major lexicographic order, which is what trying the cells in
  row-major order and the candidates in ascending order with first success amounts to;
  on False it leaves the grid as it was.
\<close>

theorem generate_board_decides_completion:
  assumes "consistent b"
  shows "generate_board 8 9 b = (Inr True, b) \<and>
    (\<forall>i j. 0 \<le> i \<and> i \<le> 8 \<and> 0 \<le> j \<and> j \<le> 8 \<and> cell b (nat i) (nat j) \<noteq> 0
       \<longrightarrow> generate_board i j b = generate_board i (j + 1) b) \<and>
    (\<forall>i j. 0 \<le> i \<and> i \<le> 8 \<and> 0 \<le> j \<and> j \<le> 8 \<and> cell b (nat i) (nat j) = 0
       \<longrightarrow> generate_board i j b = try_nums i j [1, 2, 3, 4, 5, 6, 7, 8, 9] b) \<and>
    (\<exists>ok b'. generate_board 0 0 b = (Inr ok, b') \<and>
       (ok \<longleftrightarrow> (\<exists>s. solved s \<and> completion b s)) \<and>
       (if ok then solved b' \<and> completion b b' \<and>
                   (\<forall>s. solved s \<and> completion b s \<longrightarrow> row_major_le b' s)
        else b' = b))"
proof -
  have wf: "wf_board b" using assms by (rule consistent_wf)
  have base: "generate_board 8 9 b = (Inr True, b)" by simp
  have skip: "generate_board i j b = generate_board i (j + 1) b"
    if "0 \<le> i \<and> i \<le> 8 \<and> 0 \<le> j \<and> j \<le> 8 \<and> cell b (nat i) (nat j) \<noteq> 0" for i j
  proof -
    have "board_get b i j = Inr (cell b (nat i) (nat j))" using wf that by (intro board_get_cell) simp_all
    with that show ?thesis by (subst generate_board.simps) (simp add: Let_def)
  qed
  have cands: "[1..9] = [1, 2, 3, 4, 5, 6, 7, 8, 9 :: int]" by (simp add: upto_rec1)
  have tryc: "generate_board i j b = try_nums i j [1, 2, 3, 4, 5, 6, 7, 8, 9] b"
    if "0 \<le> i \<and> i \<le> 8 \<and> 0 \<le> j \<and> j \<le> 8 \<and> cell b (nat i) (nat j) = 0" for i j
  proof -
    have "board_get b i j = Inr (cell b (nat i) (nat j))" using wf that by (intro board_get_cell) simp_all
    with that show ?thesis by (subst generate_board.simps) (simp add: Let_def cands)
  qed
  have "filled_before b 0 0" by (simp add: filled_before_def)
  with assms have "found b (generate_board 0 0 b) (\<lambda>s. False)"
    by (intro search_correct(1)) simp_all
  then obtain ok b' where g: "generate_board 0 0 b = (Inr ok, b')"
    and post: "if ok then solved b' \<and> completion b b' \<and>
                    (\<forall>s. solved s \<and> completion b s \<longrightarrow> row_major_le b' s)
               else b' = b \<and> (\<forall>s. solved s \<and> completion b s \<longrightarrow> False)"
    unfolding found_def by blast
  have "ok \<longleftrightarrow> (\<exists>s. solved s \<and> completion b s)" using post by (cases ok) auto
  moreover have "if ok then solved b' \<and> completion b b' \<and>
                    (\<forall>s. solved s \<and> completion b s \<longrightarrow> row_major_le b' s) else b' = b"
    using post by (cases ok) auto
  ultimately have "\<exists>ok b'. generate_board 0 0 b = (Inr ok, b') \<and>
       (ok \<longleftrightarrow> (\<exists>s. solved s \<and> completion b s)) \<and>
       (if ok then solved b' \<and> completion b b' \<and>
                   (\<forall>s. solved s \<and> completion b s \<longrightarrow> row_major_le b' s)
        else b' = b)" using g by blast
  with base skip tryc show ?thesis by blast
qed

theorem generate_board_decides_completion_witness:
  "consistent two_way_grid \<and> generate_board 0 0 two_way_grid = (Inr True, solved_grid) \<and>
   solved solved_grid \<and> completion two_way_grid solved_grid \<and>
   solved other_grid \<and> completion two_way_grid other_grid \<and> other_grid \<noteq> solved_grid \<and>
   row_major_le solved_grid other_grid \<and> \<not> row_major_le other_grid solved_grid"
proof -
  have c: "consistent two_way_grid" by code_simp
  have ev: "generate_board 0 0 two_way_grid = (Inr True, solved_grid)" by code_simp
  have o: "solved other_grid" "completion two_way_grid other_grid" by code_simp+
  have ne: "other_grid \<noteq> solved_grid" by code_simp
  have nle: "\<not> row_major_le other_grid solved_grid" by code_simp
  from generate_board_decides_completion[OF c] ev o
  have "solved solved_grid \<and> completion two_way_grid solved_grid \<and>
        row_major_le solved_grid other_grid" by auto
  with c ev o ne nle show ?thesis by simp
qed


section \<open>The remover blanks distinct non-zero cells\<close>

lemma randint_0_8: "randint src k 0 8 = (int (src k mod 9), Suc k)"
  by (simp add: randint_def)

lemma pick_field_unfold:
  "pick_field src b k =
     (case board_get b (int (src k mod 9)) (int (src (Suc k) mod 9)) of
        Inl e \<Rightarrow> Some (Inl e, Suc (Suc k))
      | Inr field \<Rightarrow>
          if field \<noteq> 0 then Some (Inr (int (src k mod 9), int (src (Suc k) mod 9)), Suc (Suc k))
          else pick_field src b (Suc (Suc k)))"
  by (subst pick_field.simps) (simp add: randint_0_8)







section \<open>Counting empty cells; seeded grids\<close>








section \<open>The remover returns on a fair source\<close>





section \<open>The filler raises nothing on a well-formed grid\<close>


section \<open>The filler keeps every filled cell\<close>



section \<open>The whole of generate: claims\<close>














section \<open>Determinism in the random draws\<close>

lemma agree_first: "agree src src' k k' \<Longrightarrow> k < k' \<Longrightarrow> src' k = src k"
  by (simp add: agree_def)

lemma agree_rest: "agree src src' k k' \<Longrightarrow> k \<le> m \<Longrightarrow> agree src src' m k'"
  by (simp add: agree_def)

lemma agree_less: "agree src src' k k' \<Longrightarrow> m \<le> k' \<Longrightarrow> agree src src' k m"
  by (simp add: agree_def)

lemma choice_agree: "src' k = src k \<Longrightarrow> choice src' k xs = choice src k xs"
  by (simp add: choice_def)

lemma choice_cursor: "choice src k xs = Inr (v, k1) \<Longrightarrow> k1 = Suc k"
  by (auto simp: choice_def split: if_splits)

lemma choice_error: "choice src k xs = Inl e \<Longrightarrow> choice src' k xs = Inl e"
  by (auto simp: choice_def split: if_splits)

lemma fill_row_prefix:
  "fill_row src x ys (nums, b, k) = (r, nums', b', k') \<Longrightarrow>
     k \<le> k' \<and> (agree src src' k k' \<longrightarrow> fill_row src' x ys (nums, b, k) = (r, nums', b', k'))"
proof (induction ys arbitrary: nums b k)
  case Nil
  then show ?case by simp
next
  case (Cons y ys)
  show ?case
  proof (cases "choice src k (sorted_list_of_set nums)")
    case (Inl e)
    with Cons.prems choice_error[OF Inl, of src'] show ?thesis by simp
  next
    case (Inr p)
    obtain num k1 where p: "p = (num, k1)" by force
    with Inr have k1: "k1 = Suc k" by (auto dest: choice_cursor)
    have ch: "choice src k (sorted_list_of_set nums) = Inr (num, Suc k)" using Inr p k1 by simp
    have ch': "choice src' k (sorted_list_of_set nums) = Inr (num, Suc k)"
      if "agree src src' k k'" "k < k'"
    proof -
      have "src' k = src k" using that by (rule agree_first)
      then have "choice src' k (sorted_list_of_set nums) = choice src k (sorted_list_of_set nums)"
        unfolding choice_def by (simp only:)
      with ch show ?thesis by simp
    qed
    show ?thesis
    proof (cases "board_set b x y num")
      case (Inl e)
      with Cons.prems ch have res: "(r, nums', b', k') = (Inl e, nums, b, Suc k)" by simp
      then have "k < k'" by simp
      with res ch' Inl show ?thesis by auto
    next
      case b1: (Inr b1)
      show ?thesis
      proof (cases "num \<in> nums")
        case False
        with Cons.prems ch b1 have res: "(r, nums', b', k') = (Inl KeyError, nums, b1, Suc k)"
          by simp
        then have "k < k'" by simp
        with res ch' b1 False show ?thesis by auto
      next
        case True
        with Cons.prems ch b1
        have run: "fill_row src x ys (nums - {num}, b1, Suc k) = (r, nums', b', k')" by simp
        from Cons.IH[OF run] have le: "Suc k \<le> k'"
          and ih: "agree src src' (Suc k) k' \<longrightarrow>
                     fill_row src' x ys (nums - {num}, b1, Suc k) = (r, nums', b', k')"
          by simp_all
        have "fill_row src' x (y # ys) (nums, b, k) = (r, nums', b', k')"
          if a: "agree src src' k k'"
        proof -
          have "agree src src' (Suc k) k'" using a by (rule agree_rest) simp
          with ih have "fill_row src' x ys (nums - {num}, b1, Suc k) = (r, nums', b', k')" by simp
          with ch'[OF a] le b1 True show ?thesis by simp
        qed
        with le show ?thesis by simp
      qed
    qed
  qed
qed

lemma fill_rows_prefix:
  "fill_rows src xs (nums, b, k) = (r, nums', b', k') \<Longrightarrow>
     k \<le> k' \<and> (agree src src' k k' \<longrightarrow> fill_rows src' xs (nums, b, k) = (r, nums', b', k'))"
proof (induction xs arbitrary: nums b k)
  case Nil
  then show ?case by simp
next
  case (Cons x xs)
  define nums1 where "nums1 = (if nums = {} then {1..9} else nums)"
  define start where "start = x - x mod 3"
  obtain r1 n1 b1 k1 where row: "fill_row src x [start..start + 2] (nums1, b, k) = (r1, n1, b1, k1)"
    by (metis prod_cases4)
  from fill_row_prefix[OF row, of src'] have le1: "k \<le> k1"
    and row': "agree src src' k k1 \<Longrightarrow> fill_row src' x [start..start + 2] (nums1, b, k) = (r1, n1, b1, k1)"
    by simp_all
  show ?case
  proof (cases r1)
    case (Inl e)
    with Cons.prems row have res: "(r, nums', b', k') = (Inl e, n1, b1, k1)"
      by (simp add: Let_def nums1_def start_def)
    with le1 row' Inl show ?thesis by (auto simp: Let_def nums1_def start_def)
  next
    case (Inr u)
    with Cons.prems row have run: "fill_rows src xs (n1, b1, k1) = (r, nums', b', k')"
      by (simp add: Let_def nums1_def start_def)
    from Cons.IH[OF run] have le: "k1 \<le> k'"
      and ih: "agree src src' k1 k' \<longrightarrow> fill_rows src' xs (n1, b1, k1) = (r, nums', b', k')"
      by simp_all
    have "fill_rows src' (x # xs) (nums, b, k) = (r, nums', b', k')" if a: "agree src src' k k'"
    proof -
      have "agree src src' k k1" using a le by (rule agree_less)
      from row'[OF this] have r': "fill_row src' x [start..start + 2] (nums1, b, k) = (r1, n1, b1, k1)" .
      have "agree src src' k1 k'" using a le1 by (rule agree_rest)
      with ih have "fill_rows src' xs (n1, b1, k1) = (r, nums', b', k')" by simp
      with r' Inr show ?thesis by (simp add: Let_def nums1_def start_def)
    qed
    with le le1 show ?thesis by simp
  qed
qed

lemma generate_diagonals_prefix:
  "generate_diagonals src (b, k) = (r, b', k') \<Longrightarrow>
     k \<le> k' \<and> (agree src src' k k' \<longrightarrow> generate_diagonals src' (b, k) = (r, b', k'))"
proof -
  assume g: "generate_diagonals src (b, k) = (r, b', k')"
  obtain n1 where "fill_rows src [0..8] ({}, b, k) = (r, n1, b', k')"
    using g by (auto simp: generate_diagonals_def split: prod.splits)
  from fill_rows_prefix[OF this, of src'] show ?thesis
    by (auto simp: generate_diagonals_def)
qed

lemma pick_field_prefix:
  assumes "pick_field src b k = Some (r, k')"
  shows "k + 2 \<le> k' \<and> (agree src src' k k' \<longrightarrow> pick_field src' b k = Some (r, k'))"
proof -
  have "\<forall>r k'. y = (r, k') \<longrightarrow>
      k + 2 \<le> k' \<and> (agree src src' k k' \<longrightarrow> pick_field src' b k = Some (r, k'))"
    if "pick_field src b k = Some y" for y
    using that
  proof (rule pick_field.raw_induct[rotated 1], goal_cases)
    case (1 pf src b k y)
    show ?case
    proof (intro allI impI)
      fix r k' assume y: "y = (r, k')"
      let ?row = "int (src k mod 9)" and ?col = "int (src (Suc k) mod 9)"
      show "k + 2 \<le> k' \<and> (agree src src' k k' \<longrightarrow> pick_field src' b k = Some (r, k'))"
      proof (cases "board_get b ?row ?col")
        case (Inl e)
        with 1(2) y have res: "r = Inl e" "k' = Suc (Suc k)" by (simp_all add: randint_0_8)
        have "pick_field src' b k = Some (r, k')" if a: "agree src src' k k'"
        proof -
          have "src' k = src k" "src' (Suc k) = src (Suc k)" using a res by (simp_all add: agree_def)
          with Inl res show ?thesis by (subst pick_field_unfold) simp
        qed
        with res show ?thesis by simp
      next
        case (Inr field)
        show ?thesis
        proof (cases "field = 0")
          case False
          with 1(2) y Inr have res: "r = Inr (?row, ?col)" "k' = Suc (Suc k)"
            by (simp_all add: randint_0_8)
          have "pick_field src' b k = Some (r, k')" if a: "agree src src' k k'"
          proof -
            have "src' k = src k" "src' (Suc k) = src (Suc k)" using a res by (simp_all add: agree_def)
            with Inr False res show ?thesis by (subst pick_field_unfold) simp
          qed
          with res show ?thesis by simp
        next
          case True
          with 1(2) y Inr have rec: "pf src b (Suc (Suc k)) = Some (r, k')"
            by (simp add: randint_0_8)
          from 1(1)[OF rec] have le: "Suc (Suc k) + 2 \<le> k'"
            and ih: "agree src src' (Suc (Suc k)) k' \<longrightarrow> pick_field src' b (Suc (Suc k)) = Some (r, k')"
            by simp_all
          have "pick_field src' b k = Some (r, k')" if a: "agree src src' k k'"
          proof -
            have "src' k = src k" "src' (Suc k) = src (Suc k)" using a le by (simp_all add: agree_def)
            moreover have "agree src src' (Suc (Suc k)) k'" using a by (rule agree_rest) simp
            ultimately show ?thesis using Inr True ih by (subst pick_field_unfold) simp
          qed
          with le show ?thesis by simp
        qed
      qed
    qed
  qed
  with assms show ?thesis by blast
qed

lemma remove_fields_prefix:
  "remove_fields src n (b, k) = Some (r, b', k') \<Longrightarrow>
     k \<le> k' \<and> (agree src src' k k' \<longrightarrow> remove_fields src' n (b, k) = Some (r, b', k'))"
proof (induction n arbitrary: b k)
  case 0
  then show ?case by simp
next
  case (Suc n)
  from Suc.prems obtain y where pf: "pick_field src b k = Some y" by (auto split: option.splits)
  obtain r1 k1 where y: "y = (r1, k1)" by force
  from pick_field_prefix[OF pf[unfolded y], of src'] have le1: "k + 2 \<le> k1"
    and pf': "agree src src' k k1 \<Longrightarrow> pick_field src' b k = Some (r1, k1)" by simp_all
  show ?case
  proof (cases r1)
    case (Inl e)
    with Suc.prems pf y have res: "(r, b', k') = (Inl e, b, k1)" by simp
    with le1 pf' Inl show ?thesis by auto
  next
    case (Inr p)
    obtain row col where p: "p = (row, col)" by force
    show ?thesis
    proof (cases "board_set b row col 0")
      case (Inl e)
      with Suc.prems pf y Inr p have res: "(r, b', k') = (Inl e, b, k1)" by simp
      with le1 pf' Inl Inr p show ?thesis by auto
    next
      case b1: (Inr b1)
      with Suc.prems pf y Inr p have run: "remove_fields src n (b1, k1) = Some (r, b', k')" by simp
      from Suc.IH[OF run] have le: "k1 \<le> k'"
        and ih: "agree src src' k1 k' \<longrightarrow> remove_fields src' n (b1, k1) = Some (r, b', k')"
        by simp_all
      have "remove_fields src' (Suc n) (b, k) = Some (r, b', k')" if a: "agree src src' k k'"
      proof -
        have "agree src src' k k1" using a le by (rule agree_less)
        from pf'[OF this] have "pick_field src' b k = Some (r1, k1)" .
        moreover have "agree src src' k1 k'" using a by (rule agree_rest) (use le1 in simp)
        ultimately show ?thesis using ih Inr p b1 by simp
      qed
      with le le1 show ?thesis by simp
    qed
  qed
qed

text \<open>
  C8: the result of \<open>generate\<close> is a function of the level, the grid and the random draws
  it consumes. If a run with the source \<open>src\<close> returns with the cursor at \<open>k'\<close>, then a
  run from the same grid and cursor with any source that gives the same draws at the
  positions \<open>k, \<dots>, k' - 1\<close> returns the same outcome, the same grid and the same
  cursor, whatever the two sources hold elsewhere.
\<close>

theorem generate_determined_by_draws:
  assumes "generate src level (b, k) = Some (res, b', k')"
    and "\<forall>n. k \<le> n \<and> n < k' \<longrightarrow> src' n = src n"
  shows "generate src' level (b, k) = Some (res, b', k')"
proof -
  have a: "agree src src' k k'" using assms(2) by (simp add: agree_def)
  obtain r1 b1 k1 where sd: "generate_diagonals src (b, k) = (r1, b1, k1)"
    by (metis prod_cases3)
  from generate_diagonals_prefix[OF sd, of src'] have le1: "k \<le> k1"
    and sd': "agree src src' k k1 \<Longrightarrow> generate_diagonals src' (b, k) = (r1, b1, k1)"
    by simp_all
  show ?thesis
  proof (cases r1)
    case (Inl e)
    with assms(1) sd have res: "(res, b', k') = (Inl e, b1, k1)" by (simp add: generate_def)
    then have "agree src src' k k1" using a by simp
    from sd'[OF this] Inl res show ?thesis by (simp add: generate_def)
  next
    case (Inr u)
    obtain r2 b2 where g: "generate_board 0 0 b1 = (r2, b2)" by force
    show ?thesis
    proof (cases r2)
      case (Inl e)
      with assms(1) sd Inr g have res: "(res, b', k') = (Inl e, b2, k1)"
        by (simp add: generate_def)
      then have "agree src src' k k1" using a by simp
      from sd'[OF this] Inl Inr g res show ?thesis by (simp add: generate_def)
    next
      case ok: (Inr ok)
      from assms(1) sd Inr g ok
      have rm: "remove_random_fields src level (b2, k1) = Some (res, b', k')"
        by (simp add: generate_def)
      show ?thesis
      proof (cases "map_of difficulty level")
        case None
        with rm have res: "(res, b', k') = (Inl KeyError, b2, k1)"
          by (simp add: remove_random_fields_def)
        then have "agree src src' k k1" using a by simp
        from sd'[OF this] Inr g ok None res show ?thesis
          by (simp add: generate_def remove_random_fields_def)
      next
        case (Some n)
        with rm have run: "remove_fields src n (b2, k1) = Some (res, b', k')"
          by (simp add: remove_random_fields_def)
        from remove_fields_prefix[OF run, of src'] have le: "k1 \<le> k'"
          and run': "agree src src' k1 k' \<Longrightarrow> remove_fields src' n (b2, k1) = Some (res, b', k')"
          by simp_all
        have "agree src src' k k1" using a le by (rule agree_less)
        from sd'[OF this] have s': "generate_diagonals src' (b, k) = (r1, b1, k1)" .
        have "agree src src' k1 k'" using a le1 by (rule agree_rest)
        from run'[OF this] s' Inr g ok Some show ?thesis
          by (simp add: generate_def remove_random_fields_def)
      qed
    qed
  qed
qed

theorem generate_determined_by_draws_witness:
  "generate src_scan 0 (empty_board, 0) = Some (Inr (), easy_puzzle, 97) \<and>
   src_alt 96 = src_scan 96 \<and> src_alt 97 \<noteq> src_scan 97 \<and>
   generate src_alt 0 (empty_board, 0) = Some (Inr (), easy_puzzle, 97)"
proof -
  have ev: "generate src_scan 0 (empty_board, 0) = Some (Inr (), easy_puzzle, 97)"
    by code_simp
  have same: "\<forall>n. 0 \<le> n \<and> n < 97 \<longrightarrow> src_alt n = src_scan n" by (simp add: src_alt_def)
  have diff: "src_alt 97 \<noteq> src_scan 97" by (simp add: src_alt_def src_scan_def)
  from generate_determined_by_draws[OF ev same] ev same diff show ?thesis by simp
qed

end
